theory Spec2Isabelle
  imports Main "HOL-Library.Word"
begin

unbundle bit_operations_syntax

section \<open>The DMA ring buffer driver of \<^verbatim>\<open>examples/dma-example.c\<close>\<close>

text \<open>
  The driver keeps two descriptor rings (transmit and receive). A producer
  (\<^verbatim>\<open>transmit_packet\<close>, which publishes through \<^verbatim>\<open>update_tx_descriptor\<close>) and the
  interrupt handler (\<^verbatim>\<open>device_interrupt\<close>) mutate the ring bookkeeping under the
  ring's spin lock; the model is the sequential behaviour of each function, one
  critical section at a time.

  Machine integers are words: \<^verbatim>\<open>unsigned int\<close>, \<^verbatim>\<open>u32\<close>, \<^verbatim>\<open>__le32\<close> and the
  \<^verbatim>\<open>atomic_t\<close> counters are 32 bits, \<^verbatim>\<open>size_t\<close> and \<^verbatim>\<open>dma_addr_t\<close> are 64 bits.
  \<^verbatim>\<open>cpu_to_le32\<close> and \<^verbatim>\<open>le32_to_cpu\<close> only fix the byte order in memory; on
  values they are the conversion to 32 bits.
\<close>

type_synonym u8 = "8 word"
type_synonym u32 = "32 word"
type_synonym size_t = "64 word"
type_synonym dma_addr_t = "64 word"

subsection \<open>Constants\<close>

definition RING_SIZE :: nat where
  "RING_SIZE = 256"

definition MAX_FRAME_SIZE :: nat where
  "MAX_FRAME_SIZE = 1518"

definition DESC_FLAG_OWNER_HW :: u32 where
  "DESC_FLAG_OWNER_HW = 0x80000000"

definition DESC_FLAG_OWNER_SW :: u32 where
  "DESC_FLAG_OWNER_SW = 0x00000000"

definition DESC_FLAG_INTR_ENABLE :: u32 where
  "DESC_FLAG_INTR_ENABLE = 0x40000000"

definition DESC_STATUS_DONE :: u32 where
  "DESC_STATUS_DONE = 0x00000001"

definition INT_STATUS_TX :: u32 where
  "INT_STATUS_TX = 0x00000001"

definition INT_STATUS_RX :: u32 where
  "INT_STATUS_RX = 0x00000002"

definition INT_ENABLE_TX :: u32 where
  "INT_ENABLE_TX = 0x00000001"

definition INT_ENABLE_RX :: u32 where
  "INT_ENABLE_RX = 0x00000002"

definition MAC_CONTROL_ENABLE :: u32 where
  "MAC_CONTROL_ENABLE = 0x00000001"

text \<open>The hardware register offsets.\<close>

datatype reg = TX_RING_PTR | RX_RING_PTR | TX_STATUS | RX_STATUS
  | INT_ENABLE | INT_STATUS | MAC_CONTROL

subsection \<open>Data\<close>

text \<open>
  \<^verbatim>\<open>struct dma_descriptor\<close>. The field \<^verbatim>\<open>length\<close> is \<open>length_f\<close> here, and the
  field \<^verbatim>\<open>size\<close> of the ring is \<open>size_f\<close>.
\<close>

record dma_descriptor =
  buffer_addr :: u32
  length_f :: u32
  status :: u32
  control :: u32

text \<open>
  \<^verbatim>\<open>struct ring_buffer\<close>. An array the ring points to is the list of its
  elements; the empty list stands for a pointer that is \<^verbatim>\<open>NULL\<close> or whose memory
  has been freed (no element may be accessed). An entry of \<^verbatim>\<open>data_buffers\<close> is
  \<open>None\<close> for \<^verbatim>\<open>NULL\<close> and \<open>Some bytes\<close> for a buffer holding those bytes.
  The spin lock has no sequential content and is left out.
\<close>

record ring_buffer =
  desc :: "dma_descriptor list"
  dma_addr :: dma_addr_t
  data_buffers :: "u8 list option list"
  data_addrs :: "dma_addr_t list"
  size_f :: size_t
  head :: u32
  tail :: u32
  count :: u32
  initialized :: bool
  total_desc :: u32
  overflow_count :: u32
  underrun_count :: u32

text \<open>A pointer to a heap object: \<^verbatim>\<open>NULL\<close>, valid, or dangling after \<^verbatim>\<open>kfree\<close>.\<close>

datatype 'a ptr = Null | Ref 'a | Freed

text \<open>
  \<^verbatim>\<open>struct pci_device\<close>, without the handles of the kernel (\<^verbatim>\<open>pdev\<close>,
  \<^verbatim>\<open>mmio_base\<close>, locks, wait queues) and the unused \<^verbatim>\<open>tx_dma\<close>, \<^verbatim>\<open>rx_dma\<close>.
\<close>

record pci_device =
  irq :: int
  tx_ring :: "ring_buffer ptr"
  rx_ring :: "ring_buffer ptr"
  started :: bool
  int_enabled :: bool
  tx_packets :: u32
  rx_packets :: u32
  tx_errors :: u32
  rx_errors :: u32
  interrupts :: u32

subsection \<open>Results and effects\<close>

datatype errno = EINVAL | ENOBUFS | ENOMEM

datatype irqreturn = IRQ_NONE | IRQ_HANDLED

text \<open>Where the C code has undefined behaviour, the model stops with a fault.\<close>

datatype fault = Null_or_freed_pointer | Out_of_bounds | Division_by_zero

datatype 'a exec = Fault fault | Return 'a

text \<open>
  What a function does to its environment (the device, the allocator, the
  scheduler), in program order. Memory is named by the field of the ring that
  holds its pointer. The stores to \<^verbatim>\<open>head\<close> and \<^verbatim>\<open>count\<close> by which
  \<^verbatim>\<open>update_tx_descriptor\<close> advances the ring are events, with the value
  stored. The other updates of the ring's bookkeeping and those of the
  statistics counters are not events; they show in the state returned.
\<close>

datatype ring_id = TX | RX

datatype field = Buffer_addr | Length | Status | Control

datatype resource = Desc_ring | Data_buffers | Data_addrs | Data_buffer nat

datatype waitq = Tx_wait | Rx_wait

datatype event =
    Desc_clear
  | Desc_store nat field u32
  | Data_copy nat nat
  | Wmb
  | Readl reg
  | Writel u32 reg
  | Head_store u32
  | Count_store u32
  | Alloc resource
  | Alloc_failed resource
  | Free resource
  | Kfree_ring ring_id
  | Free_irq
  | Wake_up waitq

subsection \<open>\<^verbatim>\<open>update_tx_descriptor\<close>\<close>

text \<open>
  \<^verbatim>\<open>(idx + 1) % ring->size\<close>: the sum is computed in \<^verbatim>\<open>unsigned int\<close>, the
  remainder in \<^verbatim>\<open>size_t\<close>, and the result is stored in an \<^verbatim>\<open>unsigned int\<close>.
\<close>

definition next_index :: "u32 \<Rightarrow> size_t \<Rightarrow> u32" where
  "next_index idx sz = ucast ((ucast (idx + 1) :: size_t) mod sz)"

definition update_tx_descriptor ::
  "pci_device \<Rightarrow> u32 \<Rightarrow> dma_addr_t \<Rightarrow> size_t \<Rightarrow> (event list \<times> pci_device) exec" where
  "update_tx_descriptor dev idx addr len =
     (case tx_ring dev of
        Ref ring \<Rightarrow>
          if ucast idx < size_f ring then
            if unat idx < length (desc ring) then
              let d = \<lparr>buffer_addr = ucast addr, length_f = ucast len, status = 0,
                       control = DESC_FLAG_OWNER_HW OR DESC_FLAG_INTR_ENABLE\<rparr>;
                  ring' = ring\<lparr>desc := (desc ring)[unat idx := d],
                               head := next_index idx (size_f ring),
                               count := count ring + 1\<rparr>
              in Return
                   ([Desc_store (unat idx) Buffer_addr (ucast addr),
                     Desc_store (unat idx) Length (ucast len),
                     Desc_store (unat idx) Status 0,
                     Desc_store (unat idx) Control
                       (DESC_FLAG_OWNER_HW OR DESC_FLAG_INTR_ENABLE),
                     Wmb,
                     Writel idx TX_RING_PTR,
                     Head_store (next_index idx (size_f ring)),
                     Count_store (count ring + 1),
                     Wake_up Tx_wait],
                    dev\<lparr>tx_ring := Ref ring'\<rparr>)
            else Fault Out_of_bounds
          else Return
                 ([], dev\<lparr>tx_ring := Ref (ring\<lparr>overflow_count := overflow_count ring + 1\<rparr>)\<rparr>)
      | _ \<Rightarrow> Fault Null_or_freed_pointer)"

subsection \<open>\<^verbatim>\<open>transmit_packet\<close>\<close>

text \<open>
  \<^verbatim>\<open>memcpy(buffer, data, len)\<close> overwrites the first \<^verbatim>\<open>len\<close> bytes of the buffer;
  it is undefined when either region is shorter than \<^verbatim>\<open>len\<close>.
\<close>

definition memcpy :: "u8 list \<Rightarrow> u8 list \<Rightarrow> nat \<Rightarrow> u8 list exec" where
  "memcpy buffer data n =
     (if n \<le> length buffer \<and> n \<le> length data
      then Return (take n data @ drop n buffer)
      else Fault Out_of_bounds)"

definition transmit_packet ::
  "pci_device \<Rightarrow> u8 list \<Rightarrow> size_t \<Rightarrow> ((errno + unit) \<times> event list \<times> pci_device) exec" where
  "transmit_packet dev data len =
     (if \<not> started dev \<or> len > of_nat MAX_FRAME_SIZE then Return (Inl EINVAL, [], dev)
      else case tx_ring dev of
        Ref ring \<Rightarrow>
          if ucast (count ring) \<ge> size_f ring then
            Return (Inl ENOBUFS, [],
                    dev\<lparr>tx_ring := Ref (ring\<lparr>overflow_count := overflow_count ring + 1\<rparr>)\<rparr>)
          else
            let idx = head ring in
            if unat idx < length (data_buffers ring) then
              (case data_buffers ring ! unat idx of
                 None \<Rightarrow> Fault Null_or_freed_pointer
               | Some buffer \<Rightarrow>
                   (case memcpy buffer data (unat len) of
                      Fault f \<Rightarrow> Fault f
                    | Return buffer' \<Rightarrow>
                        let ring1 = ring\<lparr>data_buffers :=
                                           (data_buffers ring)[unat idx := Some buffer']\<rparr>;
                            dev1 = dev\<lparr>tx_ring := Ref ring1\<rparr>
                        in if unat idx < length (data_addrs ring1) then
                             (case update_tx_descriptor dev1 idx
                                     (data_addrs ring1 ! unat idx) len of
                                Fault f \<Rightarrow> Fault f
                              | Return (ev, dev2) \<Rightarrow>
                                  Return (Inr (),
                                          Data_copy (unat idx) (unat len) # ev,
                                          dev2\<lparr>tx_packets := tx_packets dev2 + 1\<rparr>))
                           else Fault Out_of_bounds))
            else Fault Out_of_bounds
      | _ \<Rightarrow> Fault Null_or_freed_pointer)"

subsection \<open>The two phases of \<^verbatim>\<open>transmit_packet\<close>\<close>

text \<open>
  \<^verbatim>\<open>transmit_packet\<close> takes the lock of the ring twice: once to test for room
  and to read \<^verbatim>\<open>head\<close>, and once more inside \<^verbatim>\<open>update_tx_descriptor\<close>. The
  first phase is the function up to and including \<^verbatim>\<open>memcpy\<close>; it returns the
  error, or the index it has claimed. The second phase is the call of
  \<^verbatim>\<open>update_tx_descriptor\<close> with that index and the increment of
  \<^verbatim>\<open>tx_packets\<close>. The copy is outside the lock, but it writes to the data
  buffer only, which neither the interrupt handler nor the device's completion
  reads, so it is taken as part of the first phase.
\<close>

definition transmit_packet_claim ::
  "pci_device \<Rightarrow> u8 list \<Rightarrow> size_t \<Rightarrow> ((errno + u32) \<times> event list \<times> pci_device) exec" where
  "transmit_packet_claim dev data len =
     (if \<not> started dev \<or> len > of_nat MAX_FRAME_SIZE then Return (Inl EINVAL, [], dev)
      else case tx_ring dev of
        Ref ring \<Rightarrow>
          if ucast (count ring) \<ge> size_f ring then
            Return (Inl ENOBUFS, [],
                    dev\<lparr>tx_ring := Ref (ring\<lparr>overflow_count := overflow_count ring + 1\<rparr>)\<rparr>)
          else
            let idx = head ring in
            if unat idx < length (data_buffers ring) then
              (case data_buffers ring ! unat idx of
                 None \<Rightarrow> Fault Null_or_freed_pointer
               | Some buffer \<Rightarrow>
                   (case memcpy buffer data (unat len) of
                      Fault f \<Rightarrow> Fault f
                    | Return buffer' \<Rightarrow>
                        Return (Inr idx, [Data_copy (unat idx) (unat len)],
                                dev\<lparr>tx_ring := Ref (ring\<lparr>data_buffers :=
                                  (data_buffers ring)[unat idx := Some buffer']\<rparr>)\<rparr>)))
            else Fault Out_of_bounds
      | _ \<Rightarrow> Fault Null_or_freed_pointer)"

definition transmit_packet_publish ::
  "pci_device \<Rightarrow> u32 \<Rightarrow> size_t \<Rightarrow> (event list \<times> pci_device) exec" where
  "transmit_packet_publish dev idx len =
     (case tx_ring dev of
        Ref ring \<Rightarrow>
          if unat idx < length (data_addrs ring) then
            (case update_tx_descriptor dev idx (data_addrs ring ! unat idx) len of
               Fault f \<Rightarrow> Fault f
             | Return (ev, dev2) \<Rightarrow> Return (ev, dev2\<lparr>tx_packets := tx_packets dev2 + 1\<rparr>))
          else Fault Out_of_bounds
      | _ \<Rightarrow> Fault Null_or_freed_pointer)"

subsection \<open>\<^verbatim>\<open>device_interrupt\<close>\<close>

text \<open>
  The transmit completion loop, \<^verbatim>\<open>while (dev->tx_ring->count > 0)\<close>: its state
  is the ring and the local flag \<^verbatim>\<open>tx_complete\<close>.
\<close>

function tx_completion_loop :: "ring_buffer \<Rightarrow> bool \<Rightarrow> (ring_buffer \<times> bool) exec" where
  "tx_completion_loop ring tx_complete =
     (if count ring > 0 then
        if unat (tail ring) < length (desc ring) then
          if status (desc ring ! unat (tail ring)) AND DESC_STATUS_DONE \<noteq> 0 then
            if size_f ring = 0 then Fault Division_by_zero
            else tx_completion_loop
                   (ring\<lparr>tail := next_index (tail ring) (size_f ring),
                          count := count ring - 1\<rparr>)
                   True
          else Return (ring, tx_complete)
        else Fault Out_of_bounds
      else Return (ring, tx_complete))"
  by pat_completeness auto
termination
  by (relation "measure (\<lambda>(ring, _). unat (count ring))")
     (auto simp: unat_minus_one word_gt_0 unat_gt_0)

declare tx_completion_loop.simps [simp del]

text \<open>
  The receive loop, \<^verbatim>\<open>while (true)\<close>: its state is the ring, the counter
  \<^verbatim>\<open>dev->rx_packets\<close> and the local flag \<^verbatim>\<open>rx_complete\<close>. Nothing bounds the
  number of iterations, so the result is optional: \<open>None\<close> when the loop does not
  return.
\<close>

partial_function (option) rx_completion_loop ::
  "ring_buffer \<Rightarrow> u32 \<Rightarrow> bool \<Rightarrow> (ring_buffer \<times> u32 \<times> bool) exec option" where
  "rx_completion_loop ring packets rx_complete =
     (if unat (head ring) < length (desc ring) then
        if status (desc ring ! unat (head ring)) AND DESC_STATUS_DONE \<noteq> 0 then
          if size_f ring = 0 then Some (Fault Division_by_zero)
          else rx_completion_loop
                 (ring\<lparr>head := next_index (head ring) (size_f ring)\<rparr>)
                 (packets + 1)
                 True
        else Some (Return (ring, packets, rx_complete))
      else Some (Fault Out_of_bounds))"

text \<open>The block \<^verbatim>\<open>if (status & INT_STATUS_TX) { ... }\<close>.\<close>

definition handle_tx_completion :: "pci_device \<Rightarrow> u32 \<Rightarrow> (pci_device \<times> bool) exec" where
  "handle_tx_completion dev int_status =
     (if int_status AND INT_STATUS_TX \<noteq> 0 then
        case tx_ring dev of
          Ref ring \<Rightarrow>
            (case tx_completion_loop ring False of
               Fault f \<Rightarrow> Fault f
             | Return (ring', tx_complete) \<Rightarrow> Return (dev\<lparr>tx_ring := Ref ring'\<rparr>, tx_complete))
        | _ \<Rightarrow> Fault Null_or_freed_pointer
      else Return (dev, False))"

text \<open>The block \<^verbatim>\<open>if (status & INT_STATUS_RX) { ... }\<close>.\<close>

definition handle_rx_completion :: "pci_device \<Rightarrow> u32 \<Rightarrow> (pci_device \<times> bool) exec option" where
  "handle_rx_completion dev int_status =
     (if int_status AND INT_STATUS_RX \<noteq> 0 then
        case rx_ring dev of
          Ref ring \<Rightarrow>
            (case rx_completion_loop ring (rx_packets dev) False of
               None \<Rightarrow> None
             | Some (Fault f) \<Rightarrow> Some (Fault f)
             | Some (Return (ring', packets, rx_complete)) \<Rightarrow>
                 Some (Return (dev\<lparr>rx_ring := Ref ring', rx_packets := packets\<rparr>, rx_complete)))
        | _ \<Rightarrow> Some (Fault Null_or_freed_pointer)
      else Some (Return (dev, False)))"

text \<open>
  The handler itself. \<open>int_status\<close> is the value that \<^verbatim>\<open>readl\<close> returns for the
  interrupt status register.
\<close>

definition device_interrupt ::
  "pci_device \<Rightarrow> u32 \<Rightarrow> (irqreturn \<times> event list \<times> pci_device) exec option" where
  "device_interrupt dev int_status =
     (if int_status = 0 then Some (Return (IRQ_NONE, [Readl INT_STATUS], dev))
      else
        let dev1 = dev\<lparr>interrupts := interrupts dev + 1\<rparr> in
        case handle_tx_completion dev1 int_status of
          Fault f \<Rightarrow> Some (Fault f)
        | Return (dev2, tx_complete) \<Rightarrow>
            (case handle_rx_completion dev2 int_status of
               None \<Rightarrow> None
             | Some (Fault f) \<Rightarrow> Some (Fault f)
             | Some (Return (dev3, rx_complete)) \<Rightarrow>
                 Some (Return
                   (IRQ_HANDLED,
                    [Readl INT_STATUS, Writel int_status INT_STATUS]
                      @ (if tx_complete then [Wake_up Tx_wait] else [])
                      @ (if rx_complete then [Wake_up Rx_wait] else []),
                    dev3))))"

subsection \<open>\<^verbatim>\<open>alloc_ring_buffer\<close>\<close>

text \<open>
  The allocator is the environment: for each request it either fails (\<open>None\<close>,
  the C call returns \<^verbatim>\<open>NULL\<close>) or succeeds with the device address of the new
  memory (not used for \<^verbatim>\<open>kzalloc\<close>). New memory is zeroed.
\<close>

type_synonym allocator = "resource \<Rightarrow> dma_addr_t option"

definition zero_descriptor :: dma_descriptor where
  "zero_descriptor = \<lparr>buffer_addr = 0, length_f = 0, status = 0, control = 0\<rparr>"

text \<open>
  The loop \<^verbatim>\<open>for (i = 0; i < RING_SIZE; i++)\<close>, from \<open>i\<close> on. It returns
  \<open>Some i\<close> when the allocation of buffer \<open>i\<close> failed (the jump to
  \<^verbatim>\<open>err_free_data\<close>) and \<open>None\<close> when it ran to the end.
\<close>

function alloc_data_loop ::
  "allocator \<Rightarrow> nat \<Rightarrow> ring_buffer \<Rightarrow> event list \<Rightarrow> nat option \<times> ring_buffer \<times> event list" where
  "alloc_data_loop al i ring ev =
     (if i < RING_SIZE then
        case al (Data_buffer i) of
          None \<Rightarrow>
            (Some i, ring\<lparr>data_buffers := (data_buffers ring)[i := None]\<rparr>,
             ev @ [Alloc_failed (Data_buffer i)])
        | Some a \<Rightarrow>
            alloc_data_loop al (Suc i)
              (ring\<lparr>data_buffers :=
                      (data_buffers ring)[i := Some (replicate MAX_FRAME_SIZE 0)],
                    data_addrs := (data_addrs ring)[i := a],
                    desc := (desc ring)[i :=
                      \<lparr>buffer_addr = ucast a, length_f = of_nat MAX_FRAME_SIZE,
                       status = 0, control = DESC_FLAG_OWNER_HW\<rparr>]\<rparr>)
              (ev @ [Alloc (Data_buffer i),
                     Desc_store i Buffer_addr (ucast a),
                     Desc_store i Length (of_nat MAX_FRAME_SIZE),
                     Desc_store i Status 0,
                     Desc_store i Control DESC_FLAG_OWNER_HW])
      else (None, ring, ev))"
  by pat_completeness auto
termination
  by (relation "measure (\<lambda>(al, i, ring, ev). RING_SIZE - i)") auto

declare alloc_data_loop.simps [simp del]

text \<open>The unwinding loop \<^verbatim>\<open>while (i-- > 0)\<close> at \<^verbatim>\<open>err_free_data\<close>.\<close>

fun free_data_loop :: "nat \<Rightarrow> event list \<Rightarrow> event list" where
  "free_data_loop 0 ev = ev"
| "free_data_loop (Suc i) ev = free_data_loop i (ev @ [Free (Data_buffer i)])"

definition alloc_ring_buffer ::
  "allocator \<Rightarrow> ring_buffer \<Rightarrow> (errno + unit) \<times> event list \<times> ring_buffer" where
  "alloc_ring_buffer al ring =
     (case al Desc_ring of
        None \<Rightarrow> (Inl ENOMEM, [Alloc_failed Desc_ring], ring\<lparr>desc := []\<rparr>)
      | Some a \<Rightarrow>
          (let ring1 = ring\<lparr>desc := replicate RING_SIZE zero_descriptor, dma_addr := a\<rparr>;
               ev1 = [Alloc Desc_ring, Desc_clear]
           in (case al Data_buffers of
                 None \<Rightarrow>
                   (Inl ENOMEM,
                    ev1 @ [Alloc_failed Data_buffers, Free Desc_ring],
                    ring1\<lparr>data_buffers := [], desc := []\<rparr>)
               | Some _ \<Rightarrow>
                   (let ring2 = ring1\<lparr>data_buffers := replicate RING_SIZE None\<rparr>;
                        ev2 = ev1 @ [Alloc Data_buffers]
                    in (case al Data_addrs of
                          None \<Rightarrow>
                            (Inl ENOMEM,
                             ev2 @ [Alloc_failed Data_addrs, Free Data_buffers, Free Desc_ring],
                             ring2\<lparr>data_addrs := [], data_buffers := [], desc := []\<rparr>)
                        | Some _ \<Rightarrow>
                            (let ring3 = ring2\<lparr>data_addrs := replicate RING_SIZE 0\<rparr>;
                                 ev3 = ev2 @ [Alloc Data_addrs]
                             in (case alloc_data_loop al 0 ring3 ev3 of
                                   (Some i, ring4, ev4) \<Rightarrow>
                                     (Inl ENOMEM,
                                      free_data_loop i ev4
                                        @ [Free Data_addrs, Free Data_buffers, Free Desc_ring],
                                      ring4\<lparr>data_addrs := [], data_buffers := [], desc := []\<rparr>)
                                 | (None, ring4, ev4) \<Rightarrow>
                                     (Inr (), ev4,
                                      ring4\<lparr>size_f := of_nat RING_SIZE, head := 0, tail := 0,
                                             count := 0, initialized := True,
                                             total_desc := of_nat RING_SIZE,
                                             overflow_count := 0, underrun_count := 0\<rparr>))))))))"

subsection \<open>\<^verbatim>\<open>free_ring_buffer\<close>\<close>

text \<open>The loop \<^verbatim>\<open>for (i = 0; i < ring->size; i++)\<close> over the buffer pointers.\<close>

function free_buffers_loop ::
  "u8 list option list \<Rightarrow> nat \<Rightarrow> nat \<Rightarrow> event list \<Rightarrow> event list exec" where
  "free_buffers_loop buffers n i ev =
     (if i < n then
        if i < length buffers then
          free_buffers_loop buffers n (Suc i)
            (case buffers ! i of None \<Rightarrow> ev | Some _ \<Rightarrow> ev @ [Free (Data_buffer i)])
        else Fault Out_of_bounds
      else Return ev)"
  by pat_completeness auto
termination
  by (relation "measure (\<lambda>(buffers, n, i, ev). n - i)") auto

declare free_buffers_loop.simps [simp del]

definition free_ring_buffer :: "ring_buffer ptr \<Rightarrow> (event list \<times> ring_buffer ptr) exec" where
  "free_ring_buffer p =
     (case p of
        Null \<Rightarrow> Return ([], Null)
      | Freed \<Rightarrow> Fault Null_or_freed_pointer
      | Ref ring \<Rightarrow>
          if \<not> initialized ring then Return ([], Ref ring)
          else (case free_buffers_loop (data_buffers ring) (unat (size_f ring)) 0 [] of
                  Fault f \<Rightarrow> Fault f
                | Return ev \<Rightarrow>
                    Return (ev @ [Free Data_addrs, Free Data_buffers, Free Desc_ring],
                            Ref (ring\<lparr>data_addrs := [], data_buffers := [], desc := [],
                                       initialized := False\<rparr>))))"

subsection \<open>\<^verbatim>\<open>cleanup_dma_device\<close>\<close>

text \<open>The block \<^verbatim>\<open>if (dev->tx_ring) { free_ring_buffer(...); kfree(...); }\<close>, for either ring.\<close>

definition cleanup_ring :: "ring_id \<Rightarrow> ring_buffer ptr \<Rightarrow> (event list \<times> ring_buffer ptr) exec" where
  "cleanup_ring rid p =
     (if p \<noteq> Null then
        case free_ring_buffer p of
          Fault f \<Rightarrow> Fault f
        | Return (ev, _) \<Rightarrow> Return (ev @ [Kfree_ring rid], Freed)
      else Return ([], p))"

definition cleanup_dma_device :: "pci_device ptr \<Rightarrow> (event list \<times> pci_device ptr) exec" where
  "cleanup_dma_device p =
     (case p of
        Null \<Rightarrow> Return ([], Null)
      | Freed \<Rightarrow> Fault Null_or_freed_pointer
      | Ref dev \<Rightarrow>
          let (ev1, dev1) =
                (if started dev then ([Writel 0 MAC_CONTROL], dev\<lparr>started := False\<rparr>)
                 else ([], dev));
              ev2 = ev1 @ [Writel 0 INT_ENABLE];
              dev2 = dev1\<lparr>int_enabled := False\<rparr>;
              ev3 = (if irq dev2 \<noteq> 0 then ev2 @ [Free_irq] else ev2)
          in (case cleanup_ring TX (tx_ring dev2) of
                Fault f \<Rightarrow> Fault f
              | Return (ev_tx, tx') \<Rightarrow>
                  (case cleanup_ring RX (rx_ring dev2) of
                     Fault f \<Rightarrow> Fault f
                   | Return (ev_rx, rx') \<Rightarrow>
                       Return (ev3 @ ev_tx @ ev_rx,
                               Ref (dev2\<lparr>tx_ring := tx', rx_ring := rx'\<rparr>)))))"

subsection \<open>The environment\<close>

text \<open>
  The device is the other party on the descriptor memory: when it has finished
  with a descriptor it sets \<^verbatim>\<open>DESC_STATUS_DONE\<close> in the status word. This
  write is the device's, not the driver's.
\<close>

definition device_completes :: "nat \<Rightarrow> ring_buffer \<Rightarrow> ring_buffer" where
  "device_completes i ring =
     ring\<lparr>desc := (desc ring)[i := (desc ring ! i)
              \<lparr>status := status (desc ring ! i) OR DESC_STATUS_DONE\<rparr>]\<rparr>"

text \<open>
  Two allocators: one that satisfies every request, and one that fails the
  request for the third data buffer.
\<close>

definition plentiful :: allocator where
  "plentiful res =
     Some (case res of
             Desc_ring \<Rightarrow> 0x10000
           | Data_buffers \<Rightarrow> 0
           | Data_addrs \<Rightarrow> 0
           | Data_buffer i \<Rightarrow> 0x100000 + 0x800 * of_nat i)"

definition short_of_memory :: allocator where
  "short_of_memory r = (if r = Data_buffer 2 then None else Some 0x1000)"

text \<open>The ring struct as \<^verbatim>\<open>kzalloc\<close> returns it in \<^verbatim>\<open>setup_dma_rings\<close>: all zero.\<close>

definition kzalloc_ring :: ring_buffer where
  "kzalloc_ring =
     \<lparr>desc = [], dma_addr = 0, data_buffers = [], data_addrs = [],
      size_f = 0, head = 0, tail = 0, count = 0, initialized = False,
      total_desc = 0, overflow_count = 0, underrun_count = 0\<rparr>"

subsection \<open>Sequences of operations\<close>

text \<open>
  A run is a sequence of calls of the producer and of the interrupt handler,
  interleaved with completions written by the device. It stops at the first
  operation that faults or does not return.
\<close>

datatype operation = Transmit "u8 list" size_t | Interrupt u32 | Completion ring_id nat

fun apply_operation :: "operation \<Rightarrow> pci_device \<Rightarrow> pci_device exec option" where
  "apply_operation (Transmit data len) dev =
     (case transmit_packet dev data len of
        Fault f \<Rightarrow> Some (Fault f)
      | Return (rc, ev, dev') \<Rightarrow> Some (Return dev'))"
| "apply_operation (Interrupt int_status) dev =
     (case device_interrupt dev int_status of
        None \<Rightarrow> None
      | Some (Fault f) \<Rightarrow> Some (Fault f)
      | Some (Return (r, ev, dev')) \<Rightarrow> Some (Return dev'))"
| "apply_operation (Completion TX i) dev =
     Some (Return (dev\<lparr>tx_ring := map_ptr (device_completes i) (tx_ring dev)\<rparr>))"
| "apply_operation (Completion RX i) dev =
     Some (Return (dev\<lparr>rx_ring := map_ptr (device_completes i) (rx_ring dev)\<rparr>))"

fun run :: "operation list \<Rightarrow> pci_device \<Rightarrow> pci_device exec option" where
  "run [] dev = Some (Return dev)"
| "run (x # xs) dev =
     (case apply_operation x dev of
        Some (Return dev') \<Rightarrow> run xs dev'
      | r \<Rightarrow> r)"

text \<open>
  A schedule interleaves at the places where the ring's lock is free. Between
  the two phases of \<^verbatim>\<open>transmit_packet\<close> the interrupt handler, the device or
  another caller of \<^verbatim>\<open>transmit_packet\<close> may run. A caller that has claimed a
  slot and not yet published it holds the index and the length in its local
  variables \<^verbatim>\<open>idx\<close> and \<^verbatim>\<open>len\<close>; \<open>claimed\<close> maps the caller to them. A
  caller between its phases cannot claim again, and only such a caller can
  publish: a step that asks otherwise is skipped. In the state \<open>idle dev\<close> no
  caller is between its phases. \<open>steps_of\<close> gives the schedule of an operation
  of a run, a call of \<^verbatim>\<open>transmit_packet\<close> being its two phases with nothing in
  between. A schedule has a single producer \<open>t\<close> when every claim and every
  publish in it is by the caller \<open>t\<close>.
\<close>

type_synonym thread = nat

record system =
  device :: pci_device
  claimed :: "thread \<Rightarrow> (u32 \<times> size_t) option"

datatype step = Claim thread "u8 list" size_t | Publish thread | Irq u32 | Device_done ring_id nat

fun apply_step :: "step \<Rightarrow> system \<Rightarrow> system exec option" where
  "apply_step (Claim t data len) s =
     (case claimed s t of
        Some c \<Rightarrow> Some (Return s)
      | None \<Rightarrow>
          (case transmit_packet_claim (device s) data len of
             Fault f \<Rightarrow> Some (Fault f)
           | Return (Inl e, ev, dev') \<Rightarrow> Some (Return (s\<lparr>device := dev'\<rparr>))
           | Return (Inr idx, ev, dev') \<Rightarrow>
               Some (Return (s\<lparr>device := dev', claimed := (claimed s)(t := Some (idx, len))\<rparr>))))"
| "apply_step (Publish t) s =
     (case claimed s t of
        None \<Rightarrow> Some (Return s)
      | Some (idx, len) \<Rightarrow>
          (case transmit_packet_publish (device s) idx len of
             Fault f \<Rightarrow> Some (Fault f)
           | Return (ev, dev') \<Rightarrow>
               Some (Return (s\<lparr>device := dev', claimed := (claimed s)(t := None)\<rparr>))))"
| "apply_step (Irq int_status) s =
     (case apply_operation (Interrupt int_status) (device s) of
        None \<Rightarrow> None
      | Some (Fault f) \<Rightarrow> Some (Fault f)
      | Some (Return dev') \<Rightarrow> Some (Return (s\<lparr>device := dev'\<rparr>)))"
| "apply_step (Device_done rid i) s =
     (case apply_operation (Completion rid i) (device s) of
        None \<Rightarrow> None
      | Some (Fault f) \<Rightarrow> Some (Fault f)
      | Some (Return dev') \<Rightarrow> Some (Return (s\<lparr>device := dev'\<rparr>)))"

fun schedule :: "step list \<Rightarrow> system \<Rightarrow> system exec option" where
  "schedule [] s = Some (Return s)"
| "schedule (x # xs) s =
     (case apply_step x s of
        Some (Return s') \<Rightarrow> schedule xs s'
      | r \<Rightarrow> r)"

definition idle :: "pci_device \<Rightarrow> system" where
  "idle dev = \<lparr>device = dev, claimed = (\<lambda>t. None)\<rparr>"

fun steps_of :: "operation \<Rightarrow> step list" where
  "steps_of (Transmit data len) = [Claim 0 data len, Publish 0]"
| "steps_of (Interrupt int_status) = [Irq int_status]"
| "steps_of (Completion rid i) = [Device_done rid i]"

fun producer :: "step \<Rightarrow> thread option" where
  "producer (Claim t data len) = Some t"
| "producer (Publish t) = Some t"
| "producer x = None"

definition single_producer :: "thread \<Rightarrow> step list \<Rightarrow> bool" where
  "single_producer t steps \<longleftrightarrow> list_all (\<lambda>x. producer x = None \<or> producer x = Some t) steps"

subsection \<open>Properties of rings, descriptors and traces\<close>

text \<open>
  A ring is well formed when its indices are in range of a non-empty descriptor
  array whose size fits an \<^verbatim>\<open>unsigned int\<close>. The bookkeeping invariant of the
  specification is \<open>0 \<le> count \<le> capacity\<close> and
  \<open>tail + count \<equiv> head (mod capacity)\<close>.
\<close>

definition ring_wf :: "ring_buffer \<Rightarrow> bool" where
  "ring_wf ring \<longleftrightarrow>
     0 < unat (size_f ring) \<and> unat (size_f ring) < 2 ^ 32
     \<and> unat (size_f ring) \<le> length (desc ring)
     \<and> unat (head ring) < unat (size_f ring)
     \<and> unat (tail ring) < unat (size_f ring)"

definition ring_invariant :: "ring_buffer \<Rightarrow> bool" where
  "ring_invariant ring \<longleftrightarrow>
     unat (count ring) \<le> unat (size_f ring)
     \<and> (unat (tail ring) + unat (count ring)) mod unat (size_f ring)
         = unat (head ring) mod unat (size_f ring)"

text \<open>
  Every slot below the ring size has a data buffer of at least
  \<^verbatim>\<open>MAX_FRAME_SIZE\<close> bytes and a device address; a payload is valid when its
  length is acceptable and the caller's memory holds that many bytes.
\<close>

definition buffers_ok :: "ring_buffer \<Rightarrow> bool" where
  "buffers_ok ring \<longleftrightarrow>
     unat (size_f ring) \<le> length (data_buffers ring)
     \<and> unat (size_f ring) \<le> length (data_addrs ring)
     \<and> list_all (\<lambda>b. case b of None \<Rightarrow> False | Some bytes \<Rightarrow> MAX_FRAME_SIZE \<le> length bytes)
           (take (unat (size_f ring)) (data_buffers ring))"

definition valid_payload :: "u8 list \<Rightarrow> size_t \<Rightarrow> bool" where
  "valid_payload data len \<longleftrightarrow> unat len \<le> MAX_FRAME_SIZE \<and> unat len \<le> length data"

text \<open>
  Reclaim as the specification words it: the pending slots are the \<open>count\<close>
  slots from \<open>tail\<close> on, in submission order, and the slots ready for reclaim
  are the completed ones at the front of them, up to the first that is not
  completed.
\<close>

definition descriptor_done :: "ring_buffer \<Rightarrow> nat \<Rightarrow> bool" where
  "descriptor_done ring i \<longleftrightarrow> status (desc ring ! i) AND DESC_STATUS_DONE \<noteq> 0"

definition pending_slots :: "ring_buffer \<Rightarrow> nat list" where
  "pending_slots ring =
     map (\<lambda>k. (unat (tail ring) + k) mod unat (size_f ring)) [0..<unat (count ring)]"

definition reclaim_ready :: "ring_buffer \<Rightarrow> nat list" where
  "reclaim_ready ring = takeWhile (descriptor_done ring) (pending_slots ring)"

definition all_done :: "ring_buffer \<Rightarrow> bool" where
  "all_done ring \<longleftrightarrow> list_all (\<lambda>d. status d AND DESC_STATUS_DONE \<noteq> 0) (desc ring)"

text \<open>The ownership of a descriptor, read from the OWNER flag of its control word.\<close>

datatype ownership = Software | Hardware

definition owner :: "dma_descriptor \<Rightarrow> ownership" where
  "owner d = (if control d AND DESC_FLAG_OWNER_HW = 0 then Software else Hardware)"

text \<open>
  In a trace, \<open>precedes a b\<close> says that \<open>b\<close> occurs after the first \<open>a\<close>.
  A release is a free of ring memory, an index store is a store to the head or
  the count of the ring. \<open>outstanding\<close> replays the allocator
  calls of a trace over the list of live resources, and fails on a free of a
  resource that is not live. \<open>disable_events\<close> are the writes by which
  \<^verbatim>\<open>cleanup_dma_device\<close> stops the device and its interrupt.
\<close>

definition precedes :: "'a \<Rightarrow> 'a \<Rightarrow> 'a list \<Rightarrow> bool" where
  "precedes a b xs \<longleftrightarrow> b \<in> set (drop 1 (dropWhile (\<lambda>x. x \<noteq> a) xs))"

fun is_release :: "event \<Rightarrow> bool" where
  "is_release (Free r) = True"
| "is_release (Kfree_ring rid) = True"
| "is_release e = False"

fun is_index_store :: "event \<Rightarrow> bool" where
  "is_index_store (Head_store v) = True"
| "is_index_store (Count_store v) = True"
| "is_index_store e = False"

fun outstanding :: "event list \<Rightarrow> resource list \<Rightarrow> resource list option" where
  "outstanding [] live = Some live"
| "outstanding (Alloc r # es) live = outstanding es (r # live)"
| "outstanding (Free r # es) live =
     (if r \<in> set live then outstanding es (remove1 r live) else None)"
| "outstanding (e # es) live = outstanding es live"

definition disable_events :: "pci_device \<Rightarrow> event list" where
  "disable_events dev =
     (if started dev then [Writel 0 MAC_CONTROL] else [])
       @ [Writel 0 INT_ENABLE]
       @ (if irq dev \<noteq> 0 then [Free_irq] else [])"

text \<open>
  The descriptor that \<^verbatim>\<open>alloc_ring_buffer\<close> writes for a buffer at device
  address \<open>a\<close>, and the events of one iteration of its loop.
\<close>

definition buffer_descriptor :: "dma_addr_t \<Rightarrow> dma_descriptor" where
  "buffer_descriptor a =
     \<lparr>buffer_addr = ucast a, length_f = of_nat MAX_FRAME_SIZE, status = 0,
      control = DESC_FLAG_OWNER_HW\<rparr>"

definition buffer_events :: "allocator \<Rightarrow> nat \<Rightarrow> event list" where
  "buffer_events al i =
     [Alloc (Data_buffer i),
      Desc_store i Buffer_addr (ucast (the (al (Data_buffer i)))),
      Desc_store i Length (of_nat MAX_FRAME_SIZE),
      Desc_store i Status 0,
      Desc_store i Control DESC_FLAG_OWNER_HW]"

text \<open>
  A ring is hardware owned when every descriptor of it has the OWNER flag set.
  A step of a schedule fails on a full ring when it is a claim, by a caller that
  may claim, whose first phase returns \<^verbatim>\<open>-ENOBUFS\<close>.
\<close>

definition hardware_owned :: "ring_buffer \<Rightarrow> bool" where
  "hardware_owned ring \<longleftrightarrow> list_all (\<lambda>d. owner d = Hardware) (desc ring)"

definition claim_fails_full :: "step \<Rightarrow> system \<Rightarrow> bool" where
  "claim_fails_full x s \<longleftrightarrow>
     (case x of
        Claim t data len \<Rightarrow>
          claimed s t = None \<and>
          (case transmit_packet_claim (device s) data len of
             Return (rc, ev, dev') \<Rightarrow> rc = Inl ENOBUFS
           | Fault f \<Rightarrow> False)
      | _ \<Rightarrow> False)"

subsection \<open>Concrete states\<close>

text \<open>
  The ring that \<^verbatim>\<open>alloc_ring_buffer\<close> builds (256 descriptors) when every
  allocation succeeds, and a started device whose two rings are such rings, as
  \<^verbatim>\<open>init_dma_device\<close> leaves it.
\<close>

definition fresh_ring :: ring_buffer where
  "fresh_ring = snd (snd (alloc_ring_buffer plentiful kzalloc_ring))"

definition fresh_device :: pci_device where
  "fresh_device =
     \<lparr>irq = 11, tx_ring = Ref fresh_ring, rx_ring = Ref fresh_ring,
      started = True, int_enabled = True,
      tx_packets = 0, rx_packets = 0, tx_errors = 0, rx_errors = 0, interrupts = 0\<rparr>"

text \<open>
  States of that ring further on: after one transmit of the payload \<open>[1, 2, 3]\<close>;
  after the device has completed that descriptor and the handler has reclaimed
  it; as a receive ring after the device has completed descriptor 0 and the
  handler has run; and as a receive ring in which the device has completed
  every descriptor.
\<close>

definition in_flight_ring :: ring_buffer where
  "in_flight_ring =
     fresh_ring\<lparr>
       data_buffers := (data_buffers fresh_ring)[0 :=
          Some ([1, 2, 3] @ replicate (MAX_FRAME_SIZE - 3) 0)],
       desc := (desc fresh_ring)[0 :=
          \<lparr>buffer_addr = 0x100000, length_f = 3, status = 0, control = 0xC0000000\<rparr>],
       head := 1, count := 1\<rparr>"

definition reclaimed_ring :: ring_buffer where
  "reclaimed_ring = (device_completes 0 in_flight_ring)\<lparr>tail := 1, count := 0\<rparr>"

definition received_ring :: ring_buffer where
  "received_ring = (device_completes 0 fresh_ring)\<lparr>head := 1\<rparr>"

definition saturated_ring :: ring_buffer where
  "saturated_ring =
     fresh_ring\<lparr>desc := map (\<lambda>d. d\<lparr>status := DESC_STATUS_DONE\<rparr>) (desc fresh_ring)\<rparr>"

text \<open>
  A ring of capacity 4, laid out as \<^verbatim>\<open>alloc_ring_buffer\<close> lays a ring out, a
  started device whose two rings are such rings, and the ring with all four
  slots pending from slot 3 on, of which slots 3, 0 and 2 are completed and
  slot 1 is not.
\<close>

definition capacity4_ring :: ring_buffer where
  "capacity4_ring =
     \<lparr>desc = replicate 4 \<lparr>buffer_addr = 0, length_f = 1518, status = 0,
                           control = DESC_FLAG_OWNER_HW\<rparr>,
      dma_addr = 0,
      data_buffers = replicate 4 (Some (replicate MAX_FRAME_SIZE 0)),
      data_addrs = replicate 4 0,
      size_f = 4, head = 0, tail = 0, count = 0, initialized = True,
      total_desc = 4, overflow_count = 0, underrun_count = 0\<rparr>"

definition capacity4_device :: pci_device where
  "capacity4_device =
     \<lparr>irq = 11, tx_ring = Ref capacity4_ring, rx_ring = Ref capacity4_ring,
      started = True, int_enabled = True,
      tx_packets = 0, rx_packets = 0, tx_errors = 0, rx_errors = 0, interrupts = 0\<rparr>"

definition wrapped_ring :: ring_buffer where
  "wrapped_ring =
     capacity4_ring
       \<lparr>desc := [\<lparr>buffer_addr = 0, length_f = 60, status = 1, control = 0xC0000000\<rparr>,
                 \<lparr>buffer_addr = 0, length_f = 60, status = 0, control = 0xC0000000\<rparr>,
                 \<lparr>buffer_addr = 0, length_f = 60, status = 1, control = 0xC0000000\<rparr>,
                 \<lparr>buffer_addr = 0, length_f = 60, status = 1, control = 0xC0000000\<rparr>],
        head := 3, tail := 3, count := 4\<rparr>"

text \<open>
  The ring of 256 descriptors after two callers have claimed slot 0 and both
  have published it, and the ring of capacity 4 after four transmits of the
  payload \<open>[1, 2, 3]\<close>.
\<close>

definition raced_ring :: ring_buffer where
  "raced_ring = in_flight_ring\<lparr>count := 2\<rparr>"

definition full_ring :: ring_buffer where
  "full_ring =
     capacity4_ring
       \<lparr>data_buffers := replicate 4 (Some ([1, 2, 3] @ replicate (MAX_FRAME_SIZE - 3) 0)),
        desc := replicate 4 \<lparr>buffer_addr = 0, length_f = 3, status = 0, control = 0xC0000000\<rparr>,
        head := 0, count := 4\<rparr>"

section \<open>Word arithmetic of the ring indices\<close>

lemma unat_ucast_up: "unat (ucast (x :: u32) :: size_t) = unat x"
proof -
  have "unat x < 2 ^ 32" using unsigned_less [of x, where 'a = nat] by simp
  then have "unat x < 2 ^ 64" by simp
  then show ?thesis
    by (simp add: unsigned_ucast_eq take_bit_nat_eq_self)
qed

lemma unat_next_index:
  assumes "sz \<noteq> 0"
  shows "unat (next_index i sz) = unat (i + 1) mod unat sz"
proof -
  have "unat (i + 1) < 2 ^ 32" using unsigned_less [of "i + 1", where 'a = nat] by simp
  moreover have "unat (i + 1) mod unat sz \<le> unat (i + 1)" by simp
  ultimately have lt: "unat (i + 1) mod unat sz < 2 ^ 32" by linarith
  have "unat ((ucast (i + 1) :: size_t) mod sz) = unat (i + 1) mod unat sz"
    by (simp only: unat_mod_distrib unat_ucast_up)
  then have "unat (next_index i sz) = take_bit 32 (unat (i + 1) mod unat sz)"
    by (simp only: next_index_def unsigned_ucast_eq) simp
  with lt show ?thesis
    by (simp only: take_bit_nat_eq_self)
qed

lemma unat_next_index_in_range:
  assumes "unat i < unat sz" and "unat sz < 2 ^ 32"
  shows "unat (next_index i sz) = Suc (unat i) mod unat sz"
proof -
  have nz: "sz \<noteq> 0" using assms(1) by (auto simp: unat_gt_0)
  have "unat i + 1 < 2 ^ 32" using assms by simp
  then have "unat (i + 1) = unat i + 1"
    by (simp add: unat_add_lem [THEN iffD1])
  then show ?thesis using unat_next_index [OF nz, of i] by simp
qed

lemma next_index_less:
  assumes "sz \<noteq> 0"
  shows "unat (next_index i sz) < unat sz"
  using assms by (simp add: unat_next_index unat_gt_0)

lemma ucast_less_size: "(ucast (i :: u32) < (sz :: size_t)) = (unat i < unat sz)"
  by (simp add: word_less_nat_alt unat_ucast_up)

lemma size_le_ucast: "((sz :: size_t) \<le> ucast (i :: u32)) = (unat sz \<le> unat i)"
  by (simp add: word_le_nat_alt unat_ucast_up)

lemma frame_too_long: "(of_nat MAX_FRAME_SIZE < (len :: size_t)) = (MAX_FRAME_SIZE < unat len)"
  by (simp add: word_less_nat_alt MAX_FRAME_SIZE_def)

section \<open>Ring construction\<close>

lemma take_update_upt:
  assumes "i < length xs" and "i < n" and "f i = v"
  shows "take (Suc i) (xs[i := v]) @ map f [Suc i..<n] = take i xs @ map f [i..<n]"
  using assms by (simp add: take_Suc_conv_app_nth upt_conv_Cons)

lemma take_update_replicate:
  assumes "i < length xs" and "i < n"
  shows "take (Suc i) (xs[i := v]) @ replicate (n - Suc i) v = take i xs @ replicate (n - i) v"
proof -
  have "n - i = Suc (n - Suc i)" using assms by simp
  then show ?thesis using assms by (simp add: take_Suc_conv_app_nth)
qed

lemma alloc_data_loop_success:
  assumes "\<forall>j. i \<le> j \<and> j < RING_SIZE \<longrightarrow> al (Data_buffer j) \<noteq> None"
    and "i \<le> RING_SIZE"
    and "length (desc ring) = RING_SIZE"
    and "length (data_buffers ring) = RING_SIZE"
    and "length (data_addrs ring) = RING_SIZE"
  shows "alloc_data_loop al i ring ev =
           (None,
            ring\<lparr>data_buffers := take i (data_buffers ring)
                     @ replicate (RING_SIZE - i) (Some (replicate MAX_FRAME_SIZE 0)),
                  data_addrs := take i (data_addrs ring)
                     @ map (\<lambda>j. the (al (Data_buffer j))) [i..<RING_SIZE],
                  desc := take i (desc ring)
                     @ map (\<lambda>j. buffer_descriptor (the (al (Data_buffer j)))) [i..<RING_SIZE]\<rparr>,
            ev @ concat (map (buffer_events al) [i..<RING_SIZE]))"
  using assms
proof (induction al i ring ev rule: alloc_data_loop.induct)
  case (1 al i ring ev)
  show ?case
  proof (cases "i < RING_SIZE")
    case False
    with "1.prems" have "i = RING_SIZE" by simp
    then show ?thesis using "1.prems" by (simp add: alloc_data_loop.simps [of al RING_SIZE])
  next
    case True
    with "1.prems" obtain a where a: "al (Data_buffer i) = Some a" by auto
    let ?ring1 = "ring\<lparr>data_buffers :=
                      (data_buffers ring)[i := Some (replicate MAX_FRAME_SIZE 0)],
                    data_addrs := (data_addrs ring)[i := a],
                    desc := (desc ring)[i :=
                      \<lparr>buffer_addr = ucast a, length_f = of_nat MAX_FRAME_SIZE,
                       status = 0, control = DESC_FLAG_OWNER_HW\<rparr>]\<rparr>"
    let ?ev1 = "ev @ [Alloc (Data_buffer i),
                     Desc_store i Buffer_addr (ucast a),
                     Desc_store i Length (of_nat MAX_FRAME_SIZE),
                     Desc_store i Status 0,
                     Desc_store i Control DESC_FLAG_OWNER_HW]"
    have ih: "alloc_data_loop al (Suc i) ?ring1 ?ev1 =
           (None,
            ?ring1\<lparr>data_buffers := take (Suc i) (data_buffers ?ring1)
                     @ replicate (RING_SIZE - Suc i) (Some (replicate MAX_FRAME_SIZE 0)),
                  data_addrs := take (Suc i) (data_addrs ?ring1)
                     @ map (\<lambda>j. the (al (Data_buffer j))) [Suc i..<RING_SIZE],
                  desc := take (Suc i) (desc ?ring1)
                     @ map (\<lambda>j. buffer_descriptor (the (al (Data_buffer j)))) [Suc i..<RING_SIZE]\<rparr>,
            ?ev1 @ concat (map (buffer_events al) [Suc i..<RING_SIZE]))"
      using "1.IH" [OF True a] "1.prems" True by simp
    have bufs: "take (Suc i) (data_buffers ?ring1)
                  @ replicate (RING_SIZE - Suc i) (Some (replicate MAX_FRAME_SIZE 0))
                = take i (data_buffers ring)
                  @ replicate (RING_SIZE - i) (Some (replicate MAX_FRAME_SIZE 0))"
      using True "1.prems" by (simp add: take_update_replicate)
    have addrs: "take (Suc i) (data_addrs ?ring1)
                   @ map (\<lambda>j. the (al (Data_buffer j))) [Suc i..<RING_SIZE]
                 = take i (data_addrs ring) @ map (\<lambda>j. the (al (Data_buffer j))) [i..<RING_SIZE]"
      using True "1.prems" a by (simp add: take_update_upt)
    have descs: "take (Suc i) (desc ?ring1)
                   @ map (\<lambda>j. buffer_descriptor (the (al (Data_buffer j)))) [Suc i..<RING_SIZE]
                 = take i (desc ring)
                   @ map (\<lambda>j. buffer_descriptor (the (al (Data_buffer j)))) [i..<RING_SIZE]"
      using True "1.prems" a by (simp add: take_update_upt buffer_descriptor_def)
    have evs: "concat (map (buffer_events al) [i..<RING_SIZE])
                 = buffer_events al i @ concat (map (buffer_events al) [Suc i..<RING_SIZE])"
      using True by (simp add: upt_conv_Cons)
    show ?thesis
      apply (subst alloc_data_loop.simps)
      apply (simp only: True a if_True option.case ih bufs addrs descs evs)
      apply (simp add: buffer_events_def a)
      done
  qed
qed

lemma alloc_data_loop_result:
  assumes "alloc_data_loop al i ring ev = (res, ring', ev')" and "i \<le> RING_SIZE"
  shows "\<exists>k. i \<le> k \<and> k \<le> RING_SIZE
           \<and> res = (if k < RING_SIZE then Some k else None)
           \<and> ev' = ev @ concat (map (buffer_events al) [i..<k])
                    @ (if k < RING_SIZE then [Alloc_failed (Data_buffer k)] else [])
           \<and> initialized ring' = initialized ring
           \<and> (\<forall>j. i \<le> j \<and> j < k \<longrightarrow> al (Data_buffer j) \<noteq> None)
           \<and> (k < RING_SIZE \<longrightarrow> al (Data_buffer k) = None)"
  using assms
proof (induction al i ring ev rule: alloc_data_loop.induct)
  case (1 al i ring ev)
  show ?case
  proof (cases "i < RING_SIZE")
    case False
    with "1.prems" have i: "i = RING_SIZE" by simp
    with "1.prems" have "res = None \<and> ring' = ring \<and> ev' = ev"
      by (simp add: alloc_data_loop.simps [of al RING_SIZE])
    with i show ?thesis by (intro exI [of _ RING_SIZE]) auto
  next
    case True
    show ?thesis
    proof (cases "al (Data_buffer i)")
      case None
      with True "1.prems" have "res = Some i
          \<and> ring' = ring\<lparr>data_buffers := (data_buffers ring)[i := None]\<rparr>
          \<and> ev' = ev @ [Alloc_failed (Data_buffer i)]"
        by (simp add: alloc_data_loop.simps [of al i])
      with True None show ?thesis by (intro exI [of _ i]) auto
    next
      case (Some a)
      let ?ring1 = "ring\<lparr>data_buffers :=
                      (data_buffers ring)[i := Some (replicate MAX_FRAME_SIZE 0)],
                    data_addrs := (data_addrs ring)[i := a],
                    desc := (desc ring)[i :=
                      \<lparr>buffer_addr = ucast a, length_f = of_nat MAX_FRAME_SIZE,
                       status = 0, control = DESC_FLAG_OWNER_HW\<rparr>]\<rparr>"
      let ?ev1 = "ev @ [Alloc (Data_buffer i),
                     Desc_store i Buffer_addr (ucast a),
                     Desc_store i Length (of_nat MAX_FRAME_SIZE),
                     Desc_store i Status 0,
                     Desc_store i Control DESC_FLAG_OWNER_HW]"
      have "alloc_data_loop al (Suc i) ?ring1 ?ev1 = (res, ring', ev')"
        using "1.prems" True Some by (simp add: alloc_data_loop.simps [of al i])
      from "1.IH" [OF True Some this] True
      obtain k where k: "Suc i \<le> k" "k \<le> RING_SIZE"
          "res = (if k < RING_SIZE then Some k else None)"
          "ev' = ?ev1 @ concat (map (buffer_events al) [Suc i..<k])
                    @ (if k < RING_SIZE then [Alloc_failed (Data_buffer k)] else [])"
          "initialized ring' = initialized ?ring1"
          "\<forall>j. Suc i \<le> j \<and> j < k \<longrightarrow> al (Data_buffer j) \<noteq> None"
          "k < RING_SIZE \<longrightarrow> al (Data_buffer k) = None"
        by auto
      have evs: "concat (map (buffer_events al) [i..<k])
                 = buffer_events al i @ concat (map (buffer_events al) [Suc i..<k])"
        using k(1) by (simp add: upt_conv_Cons)
      have "\<forall>j. i \<le> j \<and> j < k \<longrightarrow> al (Data_buffer j) \<noteq> None"
        using k(6) Some by (metis Suc_leI le_neq_implies_less option.distinct(1))
      moreover have "buffer_events al i = [Alloc (Data_buffer i),
                     Desc_store i Buffer_addr (ucast a),
                     Desc_store i Length (of_nat MAX_FRAME_SIZE),
                     Desc_store i Status 0,
                     Desc_store i Control DESC_FLAG_OWNER_HW]"
        by (simp add: buffer_events_def Some)
      then have "ev' = ev @ concat (map (buffer_events al) [i..<k])
                    @ (if k < RING_SIZE then [Alloc_failed (Data_buffer k)] else [])"
        using k(4) by (simp only: evs) simp
      moreover have "i \<le> k" using k(1) by simp
      ultimately show ?thesis
        using k(2,3,5,7) by (intro exI [of _ k]) simp
    qed
  qed
qed

lemma outstanding_append:
  "outstanding (xs @ ys) live =
     (case outstanding xs live of None \<Rightarrow> None | Some l \<Rightarrow> outstanding ys l)"
  by (induction xs live rule: outstanding.induct) auto

lemma outstanding_buffer_events:
  "outstanding (concat (map (buffer_events al) [i..<k])) live =
     Some (map Data_buffer (rev [i..<k]) @ live)"
proof (induction k)
  case 0
  then show ?case by simp
next
  case (Suc k)
  show ?case
  proof (cases "i \<le> k")
    case True
    then show ?thesis
      using Suc by (simp add: outstanding_append buffer_events_def)
  next
    case False
    then show ?thesis by simp
  qed
qed

lemma free_data_loop_events:
  "free_data_loop k ev = ev @ map (\<lambda>j. Free (Data_buffer j)) (rev [0..<k])"
  by (induction k arbitrary: ev) auto

lemma outstanding_free_buffers:
  "outstanding (map (\<lambda>j. Free (Data_buffer j)) (rev [0..<k]))
     (map Data_buffer (rev [0..<k]) @ live) = Some live"
  by (induction k) auto

lemma outstanding_freed:
  assumes "outstanding ev live = Some live'"
    and "Alloc r \<in> set ev \<or> r \<in> set live"
    and "r \<notin> set live'"
  shows "Free r \<in> set ev"
  using assms
proof (induction ev live rule: outstanding.induct)
  case (3 r' es live)
  then show ?case
    by (cases "r' = r") (auto split: if_splits)
qed auto

lemma rollback_events:
  "outstanding
     ([Alloc Desc_ring, Desc_clear, Alloc Data_buffers, Alloc Data_addrs]
        @ concat (map (buffer_events al) [0..<k]) @ [Alloc_failed (Data_buffer k)]
        @ map (\<lambda>j. Free (Data_buffer j)) (rev [0..<k])
        @ [Free Data_addrs, Free Data_buffers, Free Desc_ring]) [] = Some []"
  by (simp add: outstanding_append outstanding_buffer_events outstanding_free_buffers)

lemma alloc_ring_buffer_failure:
  assumes "alloc_ring_buffer al ring = (Inl e, ev, ring')"
  shows "e = ENOMEM \<and> outstanding ev [] = Some [] \<and> initialized ring' = initialized ring"
proof (cases "al Desc_ring")
  case None
  with assms show ?thesis by (auto simp: alloc_ring_buffer_def)
next
  case d: (Some a)
  show ?thesis
  proof (cases "al Data_buffers")
    case None
    with d assms show ?thesis by (auto simp: alloc_ring_buffer_def Let_def)
  next
    case b: (Some a2)
    show ?thesis
    proof (cases "al Data_addrs")
      case None
      with d b assms show ?thesis by (auto simp: alloc_ring_buffer_def Let_def)
    next
      case c: (Some a3)
      let ?ring3 = "ring\<lparr>desc := replicate RING_SIZE zero_descriptor, dma_addr := a,
                          data_buffers := replicate RING_SIZE None,
                          data_addrs := replicate RING_SIZE 0\<rparr>"
      let ?ev3 = "[Alloc Desc_ring, Desc_clear, Alloc Data_buffers, Alloc Data_addrs]"
      obtain res ring4 ev4 where loop: "alloc_data_loop al 0 ?ring3 ?ev3 = (res, ring4, ev4)"
        by (metis prod_cases3)
      from alloc_data_loop_result [OF loop]
      obtain k where k: "k \<le> RING_SIZE" "res = (if k < RING_SIZE then Some k else None)"
          "ev4 = ?ev3 @ concat (map (buffer_events al) [0..<k])
                    @ (if k < RING_SIZE then [Alloc_failed (Data_buffer k)] else [])"
          "initialized ring4 = initialized ?ring3"
        by auto
      from assms d b c loop have res: "res \<noteq> None"
        by (auto simp: alloc_ring_buffer_def Let_def split: option.splits)
      with k have lt: "k < RING_SIZE" by (auto split: if_splits)
      from assms d b c loop k lt have
        "e = ENOMEM" "initialized ring' = initialized ring"
        "ev = free_data_loop k ev4 @ [Free Data_addrs, Free Data_buffers, Free Desc_ring]"
        by (auto simp: alloc_ring_buffer_def Let_def split: option.splits)
      moreover have "outstanding (free_data_loop k ev4
                        @ [Free Data_addrs, Free Data_buffers, Free Desc_ring]) [] = Some []"
        using rollback_events [of al k] k(3) lt by (simp add: free_data_loop_events)
      ultimately show ?thesis by simp
    qed
  qed
qed

lemma alloc_ring_buffer_succeeds_iff:
  "(\<exists>ev ring'. alloc_ring_buffer al ring = (Inr (), ev, ring'))
   = (al Desc_ring \<noteq> None \<and> al Data_buffers \<noteq> None \<and> al Data_addrs \<noteq> None
      \<and> (\<forall>i<RING_SIZE. al (Data_buffer i) \<noteq> None))"
proof (cases "al Desc_ring \<noteq> None \<and> al Data_buffers \<noteq> None \<and> al Data_addrs \<noteq> None")
  case False
  then show ?thesis by (auto simp: alloc_ring_buffer_def Let_def split: option.splits)
next
  case True
  then obtain a a2 a3 where al: "al Desc_ring = Some a" "al Data_buffers = Some a2"
      "al Data_addrs = Some a3" by auto
  let ?ring3 = "ring\<lparr>desc := replicate RING_SIZE zero_descriptor, dma_addr := a,
                      data_buffers := replicate RING_SIZE None,
                      data_addrs := replicate RING_SIZE 0\<rparr>"
  let ?ev3 = "[Alloc Desc_ring, Desc_clear, Alloc Data_buffers, Alloc Data_addrs]"
  obtain res ring4 ev4 where loop: "alloc_data_loop al 0 ?ring3 ?ev3 = (res, ring4, ev4)"
    by (metis prod_cases3)
  from alloc_data_loop_result [OF loop]
  obtain k where k: "k \<le> RING_SIZE" "res = (if k < RING_SIZE then Some k else None)"
      "\<forall>j. j < k \<longrightarrow> al (Data_buffer j) \<noteq> None"
      "k < RING_SIZE \<longrightarrow> al (Data_buffer k) = None"
    by auto
  have "(\<exists>ev ring'. alloc_ring_buffer al ring = (Inr (), ev, ring')) = (res = None)"
    using al loop by (auto simp: alloc_ring_buffer_def Let_def split: option.splits)
  also have "\<dots> = (k = RING_SIZE)" using k(1,2) by auto
  also have "\<dots> = (\<forall>i<RING_SIZE. al (Data_buffer i) \<noteq> None)"
    using k by (metis le_neq_implies_less)
  finally show ?thesis using True by simp
qed

lemma alloc_ring_buffer_success:
  assumes "al Desc_ring \<noteq> None" "al Data_buffers \<noteq> None" "al Data_addrs \<noteq> None"
    and "\<forall>i<RING_SIZE. al (Data_buffer i) \<noteq> None"
  shows "alloc_ring_buffer al ring =
     (Inr (),
      [Alloc Desc_ring, Desc_clear, Alloc Data_buffers, Alloc Data_addrs]
        @ concat (map (buffer_events al) [0..<RING_SIZE]),
      ring\<lparr>desc := map (\<lambda>j. buffer_descriptor (the (al (Data_buffer j)))) [0..<RING_SIZE],
           dma_addr := the (al Desc_ring),
           data_buffers := replicate RING_SIZE (Some (replicate MAX_FRAME_SIZE 0)),
           data_addrs := map (\<lambda>j. the (al (Data_buffer j))) [0..<RING_SIZE],
           size_f := of_nat RING_SIZE, head := 0, tail := 0, count := 0,
           initialized := True, total_desc := of_nat RING_SIZE,
           overflow_count := 0, underrun_count := 0\<rparr>)"
proof -
  from assms obtain a a2 a3 where al: "al Desc_ring = Some a" "al Data_buffers = Some a2"
      "al Data_addrs = Some a3" by auto
  let ?ring3 = "ring\<lparr>desc := replicate RING_SIZE zero_descriptor, dma_addr := a,
                      data_buffers := replicate RING_SIZE None,
                      data_addrs := replicate RING_SIZE 0\<rparr>"
  have "alloc_data_loop al 0 ?ring3 ev3 =
           (None,
            ?ring3\<lparr>data_buffers := take 0 (data_buffers ?ring3)
                     @ replicate (RING_SIZE - 0) (Some (replicate MAX_FRAME_SIZE 0)),
                  data_addrs := take 0 (data_addrs ?ring3)
                     @ map (\<lambda>j. the (al (Data_buffer j))) [0..<RING_SIZE],
                  desc := take 0 (desc ?ring3)
                     @ map (\<lambda>j. buffer_descriptor (the (al (Data_buffer j)))) [0..<RING_SIZE]\<rparr>,
            ev3 @ concat (map (buffer_events al) [0..<RING_SIZE]))" for ev3
    by (rule alloc_data_loop_success) (use assms in simp_all)
  then show ?thesis
    by (simp add: alloc_ring_buffer_def al Let_def)
qed

lemma alloc_ring_buffer_counters:
  assumes "alloc_ring_buffer al ring0 = (Inr (), ev, ring)"
  shows "underrun_count ring = 0 \<and> overflow_count ring = 0 \<and> head ring = 0 \<and> tail ring = 0
         \<and> count ring = 0 \<and> initialized ring \<and> size_f ring = of_nat RING_SIZE"
proof -
  from assms have "\<exists>ev ring'. alloc_ring_buffer al ring0 = (Inr (), ev, ring')" by blast
  then have ok: "al Desc_ring \<noteq> None" "al Data_buffers \<noteq> None" "al Data_addrs \<noteq> None"
      "\<forall>i<RING_SIZE. al (Data_buffer i) \<noteq> None"
    by (simp_all add: alloc_ring_buffer_succeeds_iff)
  from alloc_ring_buffer_success [OF ok, of ring0] assms show ?thesis by auto
qed

lemma alloc_ring_buffer_descriptors:
  assumes "alloc_ring_buffer al ring0 = (Inr (), ev, ring)"
  shows "length (desc ring) = RING_SIZE
       \<and> (\<forall>i<RING_SIZE. control (desc ring ! i) = DESC_FLAG_OWNER_HW
                          \<and> owner (desc ring ! i) = Hardware)"
proof -
  from assms have "\<exists>ev ring'. alloc_ring_buffer al ring0 = (Inr (), ev, ring')" by blast
  then have ok: "al Desc_ring \<noteq> None" "al Data_buffers \<noteq> None" "al Data_addrs \<noteq> None"
      "\<forall>i<RING_SIZE. al (Data_buffer i) \<noteq> None"
    by (simp_all add: alloc_ring_buffer_succeeds_iff)
  from alloc_ring_buffer_success [OF ok, of ring0] assms
  have d: "desc ring = map (\<lambda>j. buffer_descriptor (the (al (Data_buffer j)))) [0..<RING_SIZE]"
    by auto
  show ?thesis
    by (simp add: d buffer_descriptor_def owner_def DESC_FLAG_OWNER_HW_def)
qed

lemma alloc_ring_buffer_invariant:
  assumes "alloc_ring_buffer al ring0 = (Inr (), ev, ring)"
  shows "ring_wf ring \<and> ring_invariant ring \<and> head ring = 0 \<and> tail ring = 0 \<and> count ring = 0"
proof -
  from alloc_ring_buffer_counters [OF assms] alloc_ring_buffer_descriptors [OF assms]
  show ?thesis
    by (simp add: ring_wf_def ring_invariant_def RING_SIZE_def)
qed

lemma alloc_data_loop_frame:
  assumes "alloc_data_loop al i ring ev = (res, ring', ev')"
  shows "\<exists>bs as ds. ring' = ring\<lparr>data_buffers := bs, data_addrs := as, desc := ds\<rparr>"
  using assms
proof (induction al i ring ev rule: alloc_data_loop.induct)
  case (1 al i ring ev)
  show ?case
  proof (cases "i < RING_SIZE")
    case False
    with "1.prems" have "ring' = ring" by (simp add: alloc_data_loop.simps [of al i])
    then have "ring' = ring\<lparr>data_buffers := data_buffers ring, data_addrs := data_addrs ring,
                            desc := desc ring\<rparr>" by simp
    then show ?thesis by blast
  next
    case True
    show ?thesis
    proof (cases "al (Data_buffer i)")
      case None
      with True "1.prems" have "ring' = ring\<lparr>data_buffers := (data_buffers ring)[i := None]\<rparr>"
        by (simp add: alloc_data_loop.simps [of al i])
      then have "ring' = ring\<lparr>data_buffers := (data_buffers ring)[i := None],
                              data_addrs := data_addrs ring, desc := desc ring\<rparr>" by simp
      then show ?thesis by blast
    next
      case (Some a)
      let ?ring1 = "ring\<lparr>data_buffers :=
                      (data_buffers ring)[i := Some (replicate MAX_FRAME_SIZE 0)],
                    data_addrs := (data_addrs ring)[i := a],
                    desc := (desc ring)[i :=
                      \<lparr>buffer_addr = ucast a, length_f = of_nat MAX_FRAME_SIZE,
                       status = 0, control = DESC_FLAG_OWNER_HW\<rparr>]\<rparr>"
      let ?ev1 = "ev @ [Alloc (Data_buffer i),
                     Desc_store i Buffer_addr (ucast a),
                     Desc_store i Length (of_nat MAX_FRAME_SIZE),
                     Desc_store i Status 0,
                     Desc_store i Control DESC_FLAG_OWNER_HW]"
      have "alloc_data_loop al (Suc i) ?ring1 ?ev1 = (res, ring', ev')"
        using "1.prems" True Some by (simp add: alloc_data_loop.simps [of al i])
      from "1.IH" [OF True Some this]
      obtain bs as ds where "ring' = ?ring1\<lparr>data_buffers := bs, data_addrs := as, desc := ds\<rparr>"
        by blast
      then have "ring' = ring\<lparr>data_buffers := bs, data_addrs := as, desc := ds\<rparr>" by simp
      then show ?thesis by blast
    qed
  qed
qed

lemma alloc_ring_buffer_failure_ring:
  assumes "alloc_ring_buffer al ring = (Inl e, ev, ring')"
  shows "ring' =
           (case al Desc_ring of
              None \<Rightarrow> ring\<lparr>desc := []\<rparr>
            | Some a \<Rightarrow>
                (case al Data_buffers of
                   None \<Rightarrow> ring\<lparr>desc := [], dma_addr := a, data_buffers := []\<rparr>
                 | Some b \<Rightarrow>
                     ring\<lparr>desc := [], dma_addr := a, data_buffers := [], data_addrs := []\<rparr>))"
proof (cases "al Desc_ring")
  case None
  with assms show ?thesis by (auto simp: alloc_ring_buffer_def)
next
  case d: (Some a)
  show ?thesis
  proof (cases "al Data_buffers")
    case None
    with d assms show ?thesis by (auto simp: alloc_ring_buffer_def Let_def)
  next
    case b: (Some a2)
    show ?thesis
    proof (cases "al Data_addrs")
      case None
      with d b assms show ?thesis by (auto simp: alloc_ring_buffer_def Let_def)
    next
      case c: (Some a3)
      let ?ring3 = "ring\<lparr>desc := replicate RING_SIZE zero_descriptor, dma_addr := a,
                          data_buffers := replicate RING_SIZE None,
                          data_addrs := replicate RING_SIZE 0\<rparr>"
      let ?ev3 = "[Alloc Desc_ring, Desc_clear, Alloc Data_buffers, Alloc Data_addrs]"
      obtain res ring4 ev4 where loop: "alloc_data_loop al 0 ?ring3 ?ev3 = (res, ring4, ev4)"
        by (metis prod_cases3)
      from alloc_data_loop_frame [OF loop] obtain bs as ds where
        r4: "ring4 = ?ring3\<lparr>data_buffers := bs, data_addrs := as, desc := ds\<rparr>" by blast
      from assms d b c loop have "ring' = ring4\<lparr>data_addrs := [], data_buffers := [], desc := []\<rparr>"
        by (auto simp: alloc_ring_buffer_def Let_def split: option.splits)
      then show ?thesis using d b c by (simp add: r4)
    qed
  qed
qed

lemma precedes_append:
  assumes "a \<in> set xs" and "b \<in> set ys"
  shows "precedes a b (xs @ ys)"
proof -
  from assms(1) obtain us vs where s: "xs = us @ a # vs" "a \<notin> set us"
    by (meson split_list_first)
  then have "dropWhile (\<lambda>x. x \<noteq> a) (xs @ ys) = a # vs @ ys"
    by (simp add: dropWhile_append3) blast
  with assms(2) show ?thesis by (simp add: precedes_def)
qed

lemma alloc_ring_buffer_unwinds:
  assumes al: "al Desc_ring = Some a" "al Data_buffers = Some b" "al Data_addrs = Some c"
    and k: "k < RING_SIZE" "\<forall>j<k. al (Data_buffer j) \<noteq> None" "al (Data_buffer k) = None"
  shows "\<exists>ring'. alloc_ring_buffer al ring =
           (Inl ENOMEM,
            [Alloc Desc_ring, Desc_clear, Alloc Data_buffers, Alloc Data_addrs]
              @ concat (map (buffer_events al) [0..<k])
              @ [Alloc_failed (Data_buffer k)]
              @ map (\<lambda>j. Free (Data_buffer j)) (rev [0..<k])
              @ [Free Data_addrs, Free Data_buffers, Free Desc_ring],
            ring')
         \<and> desc ring' = [] \<and> data_buffers ring' = [] \<and> data_addrs ring' = []"
proof -
  let ?ring3 = "ring\<lparr>desc := replicate RING_SIZE zero_descriptor, dma_addr := a,
                      data_buffers := replicate RING_SIZE None,
                      data_addrs := replicate RING_SIZE 0\<rparr>"
  let ?ev3 = "[Alloc Desc_ring, Desc_clear, Alloc Data_buffers, Alloc Data_addrs]"
  obtain res ring4 ev4 where loop: "alloc_data_loop al 0 ?ring3 ?ev3 = (res, ring4, ev4)"
    by (metis prod_cases3)
  from alloc_data_loop_result [OF loop]
  obtain k' where k': "k' \<le> RING_SIZE" "res = (if k' < RING_SIZE then Some k' else None)"
      "ev4 = ?ev3 @ concat (map (buffer_events al) [0..<k'])
                @ (if k' < RING_SIZE then [Alloc_failed (Data_buffer k')] else [])"
      "\<forall>j. j < k' \<longrightarrow> al (Data_buffer j) \<noteq> None"
      "k' < RING_SIZE \<longrightarrow> al (Data_buffer k') = None"
    by auto
  have "\<not> k < k'" using k'(4) k(3) by blast
  moreover have "\<not> k' < k" using k'(5) k(1,2) by auto
  ultimately have e: "k' = k" by simp
  have res: "res = Some k" and ev4: "ev4 = ?ev3 @ concat (map (buffer_events al) [0..<k])
                @ [Alloc_failed (Data_buffer k)]"
    using k'(2,3) e k(1) by simp_all
  show ?thesis
    by (simp add: alloc_ring_buffer_def al Let_def loop res ev4 free_data_loop_events)
qed

lemma alloc_ring_buffer_loop:
  assumes "al Desc_ring = Some a" and "al Data_buffers = Some b" and "al Data_addrs = Some c"
    and "alloc_data_loop al 0
           (ring\<lparr>desc := replicate RING_SIZE zero_descriptor, dma_addr := a,
                 data_buffers := replicate RING_SIZE None,
                 data_addrs := replicate RING_SIZE 0\<rparr>)
           [Alloc Desc_ring, Desc_clear, Alloc Data_buffers, Alloc Data_addrs]
         = (None, ring', ev)"
  shows "alloc_ring_buffer al ring =
           (Inr (), ev,
            ring'\<lparr>size_f := of_nat RING_SIZE, head := 0, tail := 0, count := 0,
                  initialized := True, total_desc := of_nat RING_SIZE,
                  overflow_count := 0, underrun_count := 0\<rparr>)"
  using assms by (simp add: alloc_ring_buffer_def Let_def)

lemma alloc_data_loop_descriptors:
  assumes "alloc_data_loop al i ring ev = (res, ring', ev')" and "i \<le> RING_SIZE"
    and "length (desc ring) = RING_SIZE"
  shows "\<exists>k. i \<le> k \<and> k \<le> RING_SIZE
           \<and> res = (if k < RING_SIZE then Some k else None)
           \<and> length (desc ring') = RING_SIZE
           \<and> (\<forall>j<RING_SIZE. desc ring' ! j =
                 (if i \<le> j \<and> j < k then buffer_descriptor (the (al (Data_buffer j)))
                  else desc ring ! j))"
  using assms
proof (induction al i ring ev rule: alloc_data_loop.induct)
  case (1 al i ring ev)
  show ?case
  proof (cases "i < RING_SIZE")
    case False
    with "1.prems" have i: "i = RING_SIZE" by simp
    with "1.prems" have "res = None \<and> ring' = ring \<and> ev' = ev"
      by (simp add: alloc_data_loop.simps [of al RING_SIZE])
    with i "1.prems"(3) show ?thesis by (intro exI [of _ RING_SIZE]) auto
  next
    case True
    show ?thesis
    proof (cases "al (Data_buffer i)")
      case None
      with True "1.prems" have "res = Some i
          \<and> ring' = ring\<lparr>data_buffers := (data_buffers ring)[i := None]\<rparr>"
        by (simp add: alloc_data_loop.simps [of al i])
      with True "1.prems"(3) show ?thesis by (intro exI [of _ i]) auto
    next
      case (Some a)
      let ?ring1 = "ring\<lparr>data_buffers :=
                      (data_buffers ring)[i := Some (replicate MAX_FRAME_SIZE 0)],
                    data_addrs := (data_addrs ring)[i := a],
                    desc := (desc ring)[i :=
                      \<lparr>buffer_addr = ucast a, length_f = of_nat MAX_FRAME_SIZE,
                       status = 0, control = DESC_FLAG_OWNER_HW\<rparr>]\<rparr>"
      let ?ev1 = "ev @ [Alloc (Data_buffer i),
                     Desc_store i Buffer_addr (ucast a),
                     Desc_store i Length (of_nat MAX_FRAME_SIZE),
                     Desc_store i Status 0,
                     Desc_store i Control DESC_FLAG_OWNER_HW]"
      have "alloc_data_loop al (Suc i) ?ring1 ?ev1 = (res, ring', ev')"
        using "1.prems" True Some by (simp add: alloc_data_loop.simps [of al i])
      from "1.IH" [OF True Some this] True "1.prems"(3)
      obtain k where k: "Suc i \<le> k" "k \<le> RING_SIZE"
          "res = (if k < RING_SIZE then Some k else None)"
          "length (desc ring') = RING_SIZE"
          "\<forall>j<RING_SIZE. desc ring' ! j =
                 (if Suc i \<le> j \<and> j < k then buffer_descriptor (the (al (Data_buffer j)))
                  else desc ?ring1 ! j)"
        by auto
      have "desc ring' ! j =
                 (if i \<le> j \<and> j < k then buffer_descriptor (the (al (Data_buffer j)))
                  else desc ring ! j)" if "j < RING_SIZE" for j
      proof (cases "j = i")
        case True
        with k(1,5) that "1.prems"(3) Some show ?thesis
          by (simp add: buffer_descriptor_def)
      next
        case False
        with k(5) that show ?thesis by auto
      qed
      moreover have "i \<le> k" using k(1) by simp
      ultimately show ?thesis using k(2,3,4) by (intro exI [of _ k]) simp
    qed
  qed
qed

lemma alloc_data_loop_ownership:
  assumes "alloc_data_loop al 0 ring ev = (res, ring', ev')"
    and "length (desc ring) = RING_SIZE"
    and "\<forall>j<RING_SIZE. owner (desc ring ! j) = Software"
  shows "\<exists>k\<le>RING_SIZE. res = (if k < RING_SIZE then Some k else None)
           \<and> (\<forall>j<RING_SIZE. owner (desc ring' ! j) = (if j < k then Hardware else Software))"
proof -
  from alloc_data_loop_descriptors [OF assms(1) _ assms(2)]
  obtain k where k: "k \<le> RING_SIZE" "res = (if k < RING_SIZE then Some k else None)"
      "\<forall>j<RING_SIZE. desc ring' ! j =
                 (if 0 \<le> j \<and> j < k then buffer_descriptor (the (al (Data_buffer j)))
                  else desc ring ! j)"
    by auto
  have o: "owner (buffer_descriptor a) = Hardware" for a
    by (simp add: owner_def buffer_descriptor_def DESC_FLAG_OWNER_HW_def)
  have "\<forall>j<RING_SIZE. owner (desc ring' ! j) = (if j < k then Hardware else Software)"
    using k(3) assms(3) o by simp
  with k(1,2) show ?thesis by blast
qed

section \<open>The transmit completion loop\<close>

lemma pending_slots_step:
  assumes "ring_wf ring" and "count ring \<noteq> 0"
  shows "pending_slots ring =
           unat (tail ring)
             # pending_slots (ring\<lparr>tail := next_index (tail ring) (size_f ring),
                                    count := count ring - 1\<rparr>)"
proof -
  let ?n = "unat (size_f ring)" and ?t = "unat (tail ring)"
  have t: "?t < ?n" and n: "?n < 2 ^ 32" using assms(1) by (simp_all add: ring_wf_def)
  have c: "unat (count ring) = Suc (unat (count ring - 1))"
    using assms(2) by (simp add: unat_minus_one unat_gt_0)
  have nx: "unat (next_index (tail ring) (size_f ring)) = Suc ?t mod ?n"
    using t n by (rule unat_next_index_in_range)
  have "(Suc ?t mod ?n + k) mod ?n = (?t + Suc k) mod ?n" for k
    by (simp add: mod_add_left_eq)
  then show ?thesis
    using t by (simp add: pending_slots_def c map_upt_Suc nx del: upt_Suc)
qed

lemma length_reclaim_ready: "length (reclaim_ready ring) \<le> unat (count ring)"
  using length_takeWhile_le [of "descriptor_done ring" "pending_slots ring"]
  by (simp add: reclaim_ready_def pending_slots_def)

lemma tx_completion_loop_reclaims:
  assumes "ring_wf ring"
  shows "\<exists>ring'. tx_completion_loop ring flag = Return (ring', flag \<or> reclaim_ready ring \<noteq> [])
           \<and> ring' = ring\<lparr>tail := tail ring', count := count ring'\<rparr>
           \<and> unat (tail ring') =
               (unat (tail ring) + length (reclaim_ready ring)) mod unat (size_f ring)
           \<and> unat (count ring') = unat (count ring) - length (reclaim_ready ring)"
  using assms
proof (induction ring flag rule: tx_completion_loop.induct)
  case (1 ring flag)
  let ?n = "unat (size_f ring)" and ?t = "unat (tail ring)"
  from "1.prems" have wf: "0 < ?n" "?n < 2 ^ 32" "?n \<le> length (desc ring)" "?t < ?n"
    by (simp_all add: ring_wf_def)
  then have nz: "size_f ring \<noteq> 0" by (auto simp: unat_gt_0)
  show ?case
  proof (cases "count ring = 0")
    case True
    then have "reclaim_ready ring = []"
      by (simp add: reclaim_ready_def pending_slots_def)
    with True wf show ?thesis
      by (simp add: tx_completion_loop.simps [of ring flag])
  next
    case False
    then have pos: "0 < count ring" by (simp add: word_gt_0)
    let ?ring1 = "ring\<lparr>tail := next_index (tail ring) (size_f ring), count := count ring - 1\<rparr>"
    have ps: "pending_slots ring = ?t # pending_slots ?ring1"
      using "1.prems" False by (rule pending_slots_step)
    show ?thesis
    proof (cases "descriptor_done ring ?t")
      case nd: False
      then have "reclaim_ready ring = []" by (simp add: reclaim_ready_def ps)
      with nd pos wf show ?thesis
        by (simp add: tx_completion_loop.simps [of ring flag] descriptor_done_def)
    next
      case d: True
      have dd: "descriptor_done ?ring1 = descriptor_done ring"
        by (simp add: descriptor_done_def fun_eq_iff)
      have rr: "reclaim_ready ring = ?t # reclaim_ready ?ring1"
        using d by (simp add: reclaim_ready_def ps dd)
      have wf1: "ring_wf ?ring1"
        using "1.prems" nz by (simp add: ring_wf_def next_index_less)
      have inb: "?t < length (desc ring)" using wf by simp
      have st: "status (desc ring ! ?t) AND DESC_STATUS_DONE \<noteq> 0"
        using d by (simp add: descriptor_done_def)
      from "1.IH" [OF pos inb st nz wf1]
      obtain ring' where r: "tx_completion_loop ?ring1 True
                               = Return (ring', True \<or> reclaim_ready ?ring1 \<noteq> [])"
          "ring' = ?ring1\<lparr>tail := tail ring', count := count ring'\<rparr>"
          "unat (tail ring') =
               (unat (tail ?ring1) + length (reclaim_ready ?ring1)) mod unat (size_f ?ring1)"
          "unat (count ring') = unat (count ?ring1) - length (reclaim_ready ?ring1)"
        by blast
      have loop: "tx_completion_loop ring flag = tx_completion_loop ?ring1 True"
        using pos inb st nz by (simp add: tx_completion_loop.simps [of ring flag])
      have nx: "unat (next_index (tail ring) (size_f ring)) = Suc ?t mod ?n"
        using wf by (intro unat_next_index_in_range)
      have t': "unat (tail ring') = (?t + length (reclaim_ready ring)) mod ?n"
        using r(3) by (simp add: nx rr mod_add_left_eq)
      have c': "unat (count ring') = unat (count ring) - length (reclaim_ready ring)"
        using r(4) False by (simp add: rr unat_minus_one)
      have eq: "ring' = ring\<lparr>tail := tail ring', count := count ring'\<rparr>"
        by (subst r(2)) simp
      show ?thesis
        using loop r(1) rr t' c' eq by (intro exI [of _ ring']) simp
    qed
  qed
qed

lemma reclaim_stops:
  assumes "ring_wf ring"
  shows "length (reclaim_ready ring) = unat (count ring)
       \<or> \<not> descriptor_done ring
             ((unat (tail ring) + length (reclaim_ready ring)) mod unat (size_f ring))"
proof (cases "length (reclaim_ready ring) = unat (count ring)")
  case True
  then show ?thesis by simp
next
  case False
  let ?k = "length (takeWhile (descriptor_done ring) (pending_slots ring))"
  have len: "length (pending_slots ring) = unat (count ring)"
    by (simp add: pending_slots_def)
  from False have lt: "?k < length (pending_slots ring)"
    using length_reclaim_ready [of ring] by (simp add: reclaim_ready_def len)
  then have "\<not> descriptor_done ring (pending_slots ring ! ?k)"
    by (rule nth_length_takeWhile)
  moreover have "pending_slots ring ! ?k = (unat (tail ring) + ?k) mod unat (size_f ring)"
    using lt by (simp add: pending_slots_def)
  ultimately show ?thesis by (simp add: reclaim_ready_def)
qed

lemma tx_completion_loop_invariant:
  assumes wf: "ring_wf ring" and inv: "ring_invariant ring"
  shows "\<exists>ring' b. tx_completion_loop ring flag = Return (ring', b)
           \<and> ring_wf ring' \<and> ring_invariant ring'"
proof -
  let ?n = "unat (size_f ring)" and ?k = "length (reclaim_ready ring)"
  from tx_completion_loop_reclaims [OF wf, of flag]
  obtain ring' where r: "tx_completion_loop ring flag = Return (ring', flag \<or> reclaim_ready ring \<noteq> [])"
      "ring' = ring\<lparr>tail := tail ring', count := count ring'\<rparr>"
      "unat (tail ring') = (unat (tail ring) + ?k) mod ?n"
      "unat (count ring') = unat (count ring) - ?k"
    by blast
  have k: "?k \<le> unat (count ring)" by (rule length_reclaim_ready)
  have same: "size_f ring' = size_f ring" "head ring' = head ring" "desc ring' = desc ring"
    by (subst r(2), simp)+
  have pos: "0 < ?n" using wf by (simp add: ring_wf_def)
  have "ring_wf ring'"
    using wf pos by (simp add: ring_wf_def same r(3))
  moreover have "ring_invariant ring'"
  proof -
    have "(unat (tail ring') + unat (count ring')) mod ?n
            = ((unat (tail ring) + ?k) + (unat (count ring) - ?k)) mod ?n"
      by (simp add: r(3,4) mod_add_left_eq)
    also have "\<dots> = (unat (tail ring) + unat (count ring)) mod ?n"
      using k by simp
    finally have cong: "(unat (tail ring') + unat (count ring')) mod ?n
                          = (unat (tail ring) + unat (count ring)) mod ?n" .
    have "unat (count ring) \<le> ?n" using inv by (simp add: ring_invariant_def)
    then have le: "unat (count ring') \<le> ?n" using r(4) by simp
    have "(unat (tail ring) + unat (count ring)) mod ?n = unat (head ring) mod ?n"
      using inv by (simp add: ring_invariant_def)
    with cong le show ?thesis
      by (simp add: ring_invariant_def same)
  qed
  ultimately show ?thesis using r(1) by blast
qed

lemma tx_completion_loop_frame:
  assumes "tx_completion_loop ring flag = Return (ring', flag')"
  shows "ring' = ring\<lparr>tail := tail ring', count := count ring'\<rparr>"
  using assms
proof (induction ring flag rule: tx_completion_loop.induct)
  case (1 ring flag)
  show ?case
  proof (cases "count ring > 0 \<and> unat (tail ring) < length (desc ring)
                \<and> status (desc ring ! unat (tail ring)) AND DESC_STATUS_DONE \<noteq> 0
                \<and> size_f ring \<noteq> 0")
    case True
    let ?ring1 = "ring\<lparr>tail := next_index (tail ring) (size_f ring), count := count ring - 1\<rparr>"
    from True "1.prems" have "tx_completion_loop ?ring1 True = Return (ring', flag')"
      by (simp add: tx_completion_loop.simps [of ring flag])
    with "1.IH" True have "ring' = ?ring1\<lparr>tail := tail ring', count := count ring'\<rparr>"
      by blast
    then show ?thesis by (metis (no_types) ring_buffer.surjective ring_buffer.update_convs(7,8))
  next
    case False
    with "1.prems" have "ring' = ring"
      by (auto simp: tx_completion_loop.simps [of ring flag] split: if_splits)
    then show ?thesis by simp
  qed
qed

section \<open>Publishing a descriptor\<close>

lemma update_tx_descriptor_publish:
  assumes "tx_ring dev = Ref ring" and "unat idx < unat (size_f ring)"
    and "unat (size_f ring) \<le> length (desc ring)"
  shows "update_tx_descriptor dev idx addr len =
           Return
             ([Desc_store (unat idx) Buffer_addr (ucast addr),
               Desc_store (unat idx) Length (ucast len),
               Desc_store (unat idx) Status 0,
               Desc_store (unat idx) Control (DESC_FLAG_OWNER_HW OR DESC_FLAG_INTR_ENABLE),
               Wmb,
               Writel idx TX_RING_PTR,
               Head_store (next_index idx (size_f ring)),
               Count_store (count ring + 1),
               Wake_up Tx_wait],
              dev\<lparr>tx_ring := Ref (ring\<lparr>desc := (desc ring)[unat idx :=
                        \<lparr>buffer_addr = ucast addr, length_f = ucast len, status = 0,
                         control = DESC_FLAG_OWNER_HW OR DESC_FLAG_INTR_ENABLE\<rparr>],
                      head := next_index idx (size_f ring),
                      count := count ring + 1\<rparr>)\<rparr>)"
  using assms by (simp add: update_tx_descriptor_def ucast_less_size Let_def)

lemma publish_invariant:
  assumes wf: "ring_wf ring" and inv: "ring_invariant ring"
    and room: "unat (count ring) < unat (size_f ring)"
  shows "ring_wf (ring\<lparr>desc := (desc ring)[i := d],
                       head := next_index (head ring) (size_f ring),
                       count := count ring + 1\<rparr>)
       \<and> ring_invariant (ring\<lparr>desc := (desc ring)[i := d],
                       head := next_index (head ring) (size_f ring),
                       count := count ring + 1\<rparr>)"
proof -
  let ?n = "unat (size_f ring)"
  from wf have w: "0 < ?n" "?n < 2 ^ 32" "?n \<le> length (desc ring)"
      "unat (head ring) < ?n" "unat (tail ring) < ?n"
    by (simp_all add: ring_wf_def)
  then have nz: "size_f ring \<noteq> 0" by (auto simp: unat_gt_0)
  have h: "unat (next_index (head ring) (size_f ring)) = Suc (unat (head ring)) mod ?n"
    using w by (intro unat_next_index_in_range)
  have "unat (count ring) + 1 < 2 ^ 32" using room w by simp
  then have c: "unat (count ring + 1) = Suc (unat (count ring))"
    by (simp add: unat_add_lem [THEN iffD1])
  have "(unat (tail ring) + Suc (unat (count ring))) mod ?n
          = Suc ((unat (tail ring) + unat (count ring)) mod ?n) mod ?n"
    by (simp add: mod_Suc_eq)
  also have "\<dots> = Suc (unat (head ring) mod ?n) mod ?n"
    using inv by (simp add: ring_invariant_def)
  also have "\<dots> = Suc (unat (head ring)) mod ?n"
    by (simp add: mod_Suc_eq)
  finally have cong: "(unat (tail ring) + Suc (unat (count ring))) mod ?n
                        = Suc (unat (head ring)) mod ?n" .
  show ?thesis
    using w room nz cong by (simp add: ring_wf_def ring_invariant_def h c)
qed

lemma update_tx_descriptor_control:
  assumes "tx_ring dev = Ref ring"
    and "update_tx_descriptor dev idx addr len = Return (ev, dev')"
  shows "\<exists>ring'. tx_ring dev' = Ref ring' \<and> length (desc ring') = length (desc ring)
           \<and> (\<forall>i<length (desc ring).
                 control (desc ring' ! i) =
                   (if i = unat idx \<and> unat idx < unat (size_f ring)
                    then DESC_FLAG_OWNER_HW OR DESC_FLAG_INTR_ENABLE
                    else control (desc ring ! i)))
           \<and> (unat idx < unat (size_f ring) \<longrightarrow> owner (desc ring' ! unat idx) = Hardware)"
proof (cases "unat idx < unat (size_f ring)")
  case False
  with assms have "dev' = dev\<lparr>tx_ring := Ref (ring\<lparr>overflow_count := overflow_count ring + 1\<rparr>)\<rparr>"
    by (simp add: update_tx_descriptor_def ucast_less_size)
  with False show ?thesis by simp
next
  case True
  let ?d = "\<lparr>buffer_addr = ucast addr, length_f = ucast len, status = 0,
             control = DESC_FLAG_OWNER_HW OR DESC_FLAG_INTR_ENABLE\<rparr>"
  let ?ring' = "ring\<lparr>desc := (desc ring)[unat idx := ?d],
                      head := next_index idx (size_f ring), count := count ring + 1\<rparr>"
  from True assms have i: "unat idx < length (desc ring)"
    and d: "dev' = dev\<lparr>tx_ring := Ref ?ring'\<rparr>"
    by (auto simp: update_tx_descriptor_def ucast_less_size Let_def split: if_splits)
  have o: "owner ?d = Hardware"
    by (simp add: owner_def DESC_FLAG_OWNER_HW_def DESC_FLAG_INTR_ENABLE_def)
  have "tx_ring dev' = Ref ?ring'" by (simp add: d)
  moreover have "length (desc ?ring') = length (desc ring)" by simp
  moreover have "\<forall>i<length (desc ring).
                 control (desc ?ring' ! i) =
                   (if i = unat idx \<and> unat idx < unat (size_f ring)
                    then DESC_FLAG_OWNER_HW OR DESC_FLAG_INTR_ENABLE
                    else control (desc ring ! i))"
    using True by (simp add: nth_list_update)
  moreover have "owner (desc ?ring' ! unat idx) = Hardware"
    using i o by simp
  ultimately show ?thesis by blast
qed

lemma precedes_simps:
  "precedes a b [] = False"
  "precedes a b (x # xs) = (if x = a then b \<in> set xs else precedes a b xs)"
  by (simp_all add: precedes_def)

section \<open>Transmitting\<close>

lemma transmit_packet_invariant:
  assumes ret: "transmit_packet dev data len = Return (rc, ev, dev')"
    and ring: "tx_ring dev = Ref ring"
    and wf: "ring_wf ring" and inv: "ring_invariant ring"
  shows "\<exists>ring'. tx_ring dev' = Ref ring' \<and> ring_wf ring' \<and> ring_invariant ring'
           \<and> rx_ring dev' = rx_ring dev"
proof (cases "\<not> started dev \<or> of_nat MAX_FRAME_SIZE < len")
  case True
  with ret have "dev' = dev" by (auto simp: transmit_packet_def)
  with ring wf inv show ?thesis by simp
next
  case ok: False
  show ?thesis
  proof (cases "unat (size_f ring) \<le> unat (count ring)")
    case True
    with ok ret ring have
      "dev' = dev\<lparr>tx_ring := Ref (ring\<lparr>overflow_count := overflow_count ring + 1\<rparr>)\<rparr>"
      by (auto simp: transmit_packet_def size_le_ucast)
    with wf inv show ?thesis by (simp add: ring_wf_def ring_invariant_def)
  next
    case False
    then have room: "unat (count ring) < unat (size_f ring)" by simp
    from wf have hd: "unat (head ring) < unat (size_f ring)"
      and ln: "unat (size_f ring) \<le> length (desc ring)" by (simp_all add: ring_wf_def)
    from ret ok ring False obtain buffer' where
      "dev' = (dev\<lparr>tx_ring := Ref (ring\<lparr>data_buffers :=
                  (data_buffers ring)[unat (head ring) := Some buffer'],
                desc := (desc ring)[unat (head ring) :=
                        \<lparr>buffer_addr = ucast (data_addrs ring ! unat (head ring)),
                         length_f = ucast len, status = 0,
                         control = DESC_FLAG_OWNER_HW OR DESC_FLAG_INTR_ENABLE\<rparr>],
                head := next_index (head ring) (size_f ring),
                count := count ring + 1\<rparr>)\<rparr>)\<lparr>tx_packets := tx_packets dev + 1\<rparr>"
      using hd ln
      by (auto simp: transmit_packet_def size_le_ucast Let_def update_tx_descriptor_publish
               split: if_splits option.splits exec.splits)
    moreover from publish_invariant [OF wf inv room] have
      "ring_wf (ring\<lparr>data_buffers := (data_buffers ring)[unat (head ring) := Some buffer'],
                desc := (desc ring)[unat (head ring) :=
                        \<lparr>buffer_addr = ucast (data_addrs ring ! unat (head ring)),
                         length_f = ucast len, status = 0,
                         control = DESC_FLAG_OWNER_HW OR DESC_FLAG_INTR_ENABLE\<rparr>],
                head := next_index (head ring) (size_f ring),
                count := count ring + 1\<rparr>)
       \<and> ring_invariant (ring\<lparr>data_buffers := (data_buffers ring)[unat (head ring) := Some buffer'],
                desc := (desc ring)[unat (head ring) :=
                        \<lparr>buffer_addr = ucast (data_addrs ring ! unat (head ring)),
                         length_f = ucast len, status = 0,
                         control = DESC_FLAG_OWNER_HW OR DESC_FLAG_INTR_ENABLE\<rparr>],
                head := next_index (head ring) (size_f ring),
                count := count ring + 1\<rparr>)"
      by (simp add: ring_wf_def ring_invariant_def)
    ultimately show ?thesis by simp
  qed
qed

lemma transmit_packet_frame:
  assumes "transmit_packet dev data len = Return (rc, ev, dev')"
  shows "dev' = dev\<lparr>tx_ring := tx_ring dev', tx_packets := tx_packets dev'\<rparr>
       \<and> rel_ptr (\<lambda>a b. b = a\<lparr>desc := desc b, data_buffers := data_buffers b,
                               head := head b, count := count b,
                               overflow_count := overflow_count b\<rparr>)
            (tx_ring dev) (tx_ring dev')"
  using assms
  by (auto simp: transmit_packet_def update_tx_descriptor_def Let_def ptr.rel_refl_strong
           split: if_splits ptr.splits option.splits exec.splits)

lemma buffers_okD:
  assumes "buffers_ok ring" and "i < unat (size_f ring)"
  shows "i < length (data_buffers ring) \<and> i < length (data_addrs ring)
       \<and> (\<exists>bytes. data_buffers ring ! i = Some bytes \<and> MAX_FRAME_SIZE \<le> length bytes)"
proof -
  from assms have l: "i < length (data_buffers ring)" "i < length (data_addrs ring)"
    by (simp_all add: buffers_ok_def)
  from assms have "list_all (\<lambda>b. case b of None \<Rightarrow> False | Some bytes \<Rightarrow> MAX_FRAME_SIZE \<le> length bytes)
           (take (unat (size_f ring)) (data_buffers ring))"
    by (simp add: buffers_ok_def)
  with assms(2) l(1) have "case data_buffers ring ! i of None \<Rightarrow> False
                          | Some bytes \<Rightarrow> MAX_FRAME_SIZE \<le> length bytes"
    by (simp add: list_all_length)
  with l show ?thesis by (auto split: option.splits)
qed

lemma buffers_ok_update:
  assumes "buffers_ok ring" and "MAX_FRAME_SIZE \<le> length bytes"
  shows "buffers_ok (ring\<lparr>data_buffers := (data_buffers ring)[i := Some bytes],
                          desc := d, head := h, count := c\<rparr>)"
proof -
  have "case (data_buffers ring)[i := Some bytes] ! n of None \<Rightarrow> False
        | Some bytes \<Rightarrow> MAX_FRAME_SIZE \<le> length bytes"
    if "n < length (data_buffers ring)" "n < unat (size_f ring)" for n
  proof (cases "n = i")
    case True
    with that assms(2) show ?thesis by simp
  next
    case False
    with that assms(1) show ?thesis by (simp add: buffers_ok_def list_all_length)
  qed
  with assms(1) show ?thesis by (simp add: buffers_ok_def list_all_length)
qed

lemma transmit_packet_success:
  assumes "started dev" and "unat len \<le> MAX_FRAME_SIZE" and "unat len \<le> length data"
    and "tx_ring dev = Ref ring" and "ring_wf ring" and "buffers_ok ring"
    and "unat (count ring) < unat (size_f ring)"
  shows "\<exists>bytes. data_buffers ring ! unat (head ring) = Some bytes
           \<and> MAX_FRAME_SIZE \<le> length bytes
           \<and> transmit_packet dev data len =
           Return
             (Inr (),
              [Data_copy (unat (head ring)) (unat len),
               Desc_store (unat (head ring)) Buffer_addr
                 (ucast (data_addrs ring ! unat (head ring))),
               Desc_store (unat (head ring)) Length (ucast len),
               Desc_store (unat (head ring)) Status 0,
               Desc_store (unat (head ring)) Control
                 (DESC_FLAG_OWNER_HW OR DESC_FLAG_INTR_ENABLE),
               Wmb,
               Writel (head ring) TX_RING_PTR,
               Head_store (next_index (head ring) (size_f ring)),
               Count_store (count ring + 1),
               Wake_up Tx_wait],
              dev\<lparr>tx_ring := Ref (ring\<lparr>
                     data_buffers := (data_buffers ring)[unat (head ring) :=
                        Some (take (unat len) data @ drop (unat len) bytes)],
                     desc := (desc ring)[unat (head ring) :=
                        \<lparr>buffer_addr = ucast (data_addrs ring ! unat (head ring)),
                         length_f = ucast len, status = 0,
                         control = DESC_FLAG_OWNER_HW OR DESC_FLAG_INTR_ENABLE\<rparr>],
                     head := next_index (head ring) (size_f ring),
                     count := count ring + 1\<rparr>),
                   tx_packets := tx_packets dev + 1\<rparr>)"
proof -
  from assms(5) have hd: "unat (head ring) < unat (size_f ring)"
    and ln: "unat (size_f ring) \<le> length (desc ring)" by (simp_all add: ring_wf_def)
  from buffers_okD [OF assms(6) hd] obtain bytes where
    b: "unat (head ring) < length (data_buffers ring)"
       "unat (head ring) < length (data_addrs ring)"
       "data_buffers ring ! unat (head ring) = Some bytes" "MAX_FRAME_SIZE \<le> length bytes"
    by blast
  have cp: "memcpy bytes data (unat len) = Return (take (unat len) data @ drop (unat len) bytes)"
    using assms(2,3) b(4) by (simp add: memcpy_def)
  let ?ring1 = "ring\<lparr>data_buffers := (data_buffers ring)[unat (head ring) :=
                        Some (take (unat len) data @ drop (unat len) bytes)]\<rparr>"
  have up: "update_tx_descriptor (dev\<lparr>tx_ring := Ref ?ring1\<rparr>) (head ring)
              (data_addrs ring ! unat (head ring)) len =
           Return
             ([Desc_store (unat (head ring)) Buffer_addr (ucast (data_addrs ring ! unat (head ring))),
               Desc_store (unat (head ring)) Length (ucast len),
               Desc_store (unat (head ring)) Status 0,
               Desc_store (unat (head ring)) Control (DESC_FLAG_OWNER_HW OR DESC_FLAG_INTR_ENABLE),
               Wmb,
               Writel (head ring) TX_RING_PTR,
               Head_store (next_index (head ring) (size_f ?ring1)),
               Count_store (count ?ring1 + 1),
               Wake_up Tx_wait],
              dev\<lparr>tx_ring := Ref ?ring1\<rparr>\<lparr>tx_ring := Ref (?ring1\<lparr>desc := (desc ?ring1)[unat (head ring) :=
                        \<lparr>buffer_addr = ucast (data_addrs ring ! unat (head ring)),
                         length_f = ucast len, status = 0,
                         control = DESC_FLAG_OWNER_HW OR DESC_FLAG_INTR_ENABLE\<rparr>],
                      head := next_index (head ring) (size_f ?ring1),
                      count := count ?ring1 + 1\<rparr>)\<rparr>)"
    by (rule update_tx_descriptor_publish) (use hd ln in simp_all)
  have "transmit_packet dev data len =
           Return
             (Inr (),
              [Data_copy (unat (head ring)) (unat len),
               Desc_store (unat (head ring)) Buffer_addr
                 (ucast (data_addrs ring ! unat (head ring))),
               Desc_store (unat (head ring)) Length (ucast len),
               Desc_store (unat (head ring)) Status 0,
               Desc_store (unat (head ring)) Control
                 (DESC_FLAG_OWNER_HW OR DESC_FLAG_INTR_ENABLE),
               Wmb,
               Writel (head ring) TX_RING_PTR,
               Head_store (next_index (head ring) (size_f ring)),
               Count_store (count ring + 1),
               Wake_up Tx_wait],
              dev\<lparr>tx_ring := Ref (ring\<lparr>
                     data_buffers := (data_buffers ring)[unat (head ring) :=
                        Some (take (unat len) data @ drop (unat len) bytes)],
                     desc := (desc ring)[unat (head ring) :=
                        \<lparr>buffer_addr = ucast (data_addrs ring ! unat (head ring)),
                         length_f = ucast len, status = 0,
                         control = DESC_FLAG_OWNER_HW OR DESC_FLAG_INTR_ENABLE\<rparr>],
                     head := next_index (head ring) (size_f ring),
                     count := count ring + 1\<rparr>),
                   tx_packets := tx_packets dev + 1\<rparr>)"
    using assms(1,2,4,7) b cp up
    by (simp add: transmit_packet_def frame_too_long size_le_ucast Let_def)
  with b show ?thesis by blast
qed

lemma transmit_packet_accepts:
  assumes "started dev" and "valid_payload data len"
    and "tx_ring dev = Ref ring" and "ring_wf ring" and "buffers_ok ring"
    and "unat (count ring) < unat (size_f ring)"
  shows "\<exists>ev dev' ring'. transmit_packet dev data len = Return (Inr (), ev, dev')
           \<and> started dev' \<and> tx_ring dev' = Ref ring'
           \<and> ring_wf ring' \<and> buffers_ok ring' \<and> size_f ring' = size_f ring
           \<and> unat (count ring') = Suc (unat (count ring))
           \<and> overflow_count ring' = overflow_count ring"
proof -
  from assms(2) have v: "unat len \<le> MAX_FRAME_SIZE" "unat len \<le> length data"
    by (simp_all add: valid_payload_def)
  from transmit_packet_success [OF assms(1) v assms(3-6)]
  obtain bytes ev dev' ring' where
    b: "MAX_FRAME_SIZE \<le> length bytes"
    and t: "transmit_packet dev data len = Return (Inr (), ev, dev')"
    and d: "dev' = dev\<lparr>tx_ring := Ref ring', tx_packets := tx_packets dev + 1\<rparr>"
    and r: "ring' = ring\<lparr>
                     data_buffers := (data_buffers ring)[unat (head ring) :=
                        Some (take (unat len) data @ drop (unat len) bytes)],
                     desc := (desc ring)[unat (head ring) :=
                        \<lparr>buffer_addr = ucast (data_addrs ring ! unat (head ring)),
                         length_f = ucast len, status = 0,
                         control = DESC_FLAG_OWNER_HW OR DESC_FLAG_INTR_ENABLE\<rparr>],
                     head := next_index (head ring) (size_f ring),
                     count := count ring + 1\<rparr>"
    by blast
  from assms(4) have w: "0 < unat (size_f ring)" "unat (size_f ring) < 2 ^ 32"
    by (simp_all add: ring_wf_def)
  then have nz: "size_f ring \<noteq> 0" by (auto simp: unat_gt_0)
  have "unat (count ring) + 1 < 2 ^ 32" using assms(6) w by simp
  then have c: "unat (count ring + 1) = Suc (unat (count ring))"
    by (simp add: unat_add_lem [THEN iffD1])
  have wf: "ring_wf ring'"
    using assms(4) nz by (simp add: r ring_wf_def next_index_less)
  have "length (take (unat len) data @ drop (unat len) bytes) = length bytes"
    using v b by simp
  with b have "MAX_FRAME_SIZE \<le> length (take (unat len) data @ drop (unat len) bytes)"
    by simp
  from buffers_ok_update [OF assms(5) this] have bo: "buffers_ok ring'"
    by (simp add: r)
  show ?thesis
    using t d wf bo c assms(1) by (simp add: r)
qed

lemma transmit_packet_overflow:
  assumes "tx_ring dev = Ref ring" and "unat (head ring) < unat (size_f ring)"
    and "transmit_packet dev data len = Return (rc, ev, dev')"
  shows "\<exists>ring'. tx_ring dev' = Ref ring'
           \<and> overflow_count ring' =
               (if rc = Inl ENOBUFS then overflow_count ring + 1 else overflow_count ring)
           \<and> (rc = Inl ENOBUFS) =
               (started dev \<and> len \<le> of_nat MAX_FRAME_SIZE
                \<and> unat (size_f ring) \<le> unat (count ring))"
  using assms
  by (auto simp: transmit_packet_def update_tx_descriptor_def Let_def size_le_ucast
                 ucast_less_size
           split: if_splits option.splits exec.splits)

lemma four_then_full:
  assumes "started dev" and "tx_ring dev = Ref ring" and "ring_wf ring" and "buffers_ok ring"
    and "size_f ring = 4" and "count ring = 0"
    and "valid_payload p1 l1" and "valid_payload p2 l2" and "valid_payload p3 l3"
    and "valid_payload p4 l4" and "valid_payload p5 l5"
  shows "\<exists>e1 d1 e2 d2 e3 d3 e4 d4 d5 r5.
           transmit_packet dev p1 l1 = Return (Inr (), e1, d1)
         \<and> transmit_packet d1 p2 l2 = Return (Inr (), e2, d2)
         \<and> transmit_packet d2 p3 l3 = Return (Inr (), e3, d3)
         \<and> transmit_packet d3 p4 l4 = Return (Inr (), e4, d4)
         \<and> transmit_packet d4 p5 l5 = Return (Inl ENOBUFS, [], d5)
         \<and> tx_ring d5 = Ref r5 \<and> overflow_count r5 = overflow_count ring + 1"
proof -
  have c0: "unat (count ring) < unat (size_f ring)" using assms(5,6) by simp
  from transmit_packet_accepts [OF assms(1,7,2,3,4) c0]
  obtain e1 d1 r1 where s1: "transmit_packet dev p1 l1 = Return (Inr (), e1, d1)"
      "started d1" "tx_ring d1 = Ref r1" "ring_wf r1" "buffers_ok r1" "size_f r1 = size_f ring"
      "unat (count r1) = Suc (unat (count ring))" "overflow_count r1 = overflow_count ring"
    by blast
  have c1: "unat (count r1) < unat (size_f r1)" using s1(6,7) assms(5,6) by simp
  from transmit_packet_accepts [OF s1(2) assms(8) s1(3,4,5) c1]
  obtain e2 d2 r2 where s2: "transmit_packet d1 p2 l2 = Return (Inr (), e2, d2)"
      "started d2" "tx_ring d2 = Ref r2" "ring_wf r2" "buffers_ok r2" "size_f r2 = size_f r1"
      "unat (count r2) = Suc (unat (count r1))" "overflow_count r2 = overflow_count r1"
    by blast
  have c2: "unat (count r2) < unat (size_f r2)" using s1(6,7) s2(6,7) assms(5,6) by simp
  from transmit_packet_accepts [OF s2(2) assms(9) s2(3,4,5) c2]
  obtain e3 d3 r3 where s3: "transmit_packet d2 p3 l3 = Return (Inr (), e3, d3)"
      "started d3" "tx_ring d3 = Ref r3" "ring_wf r3" "buffers_ok r3" "size_f r3 = size_f r2"
      "unat (count r3) = Suc (unat (count r2))" "overflow_count r3 = overflow_count r2"
    by blast
  have c3: "unat (count r3) < unat (size_f r3)"
    using s1(6,7) s2(6,7) s3(6,7) assms(5,6) by simp
  from transmit_packet_accepts [OF s3(2) assms(10) s3(3,4,5) c3]
  obtain e4 d4 r4 where s4: "transmit_packet d3 p4 l4 = Return (Inr (), e4, d4)"
      "started d4" "tx_ring d4 = Ref r4" "ring_wf r4" "buffers_ok r4" "size_f r4 = size_f r3"
      "unat (count r4) = Suc (unat (count r3))" "overflow_count r4 = overflow_count r3"
    by blast
  have full: "size_f r4 \<le> ucast (count r4)"
    using s1(6,7) s2(6,7) s3(6,7) s4(6,7) assms(5,6) by (simp add: size_le_ucast)
  have l5: "l5 \<le> of_nat MAX_FRAME_SIZE"
    using assms(11) frame_too_long [of l5] by (simp add: valid_payload_def not_less [symmetric])
  have s5: "transmit_packet d4 p5 l5 =
        Return (Inl ENOBUFS, [],
                d4\<lparr>tx_ring := Ref (r4\<lparr>overflow_count := overflow_count r4 + 1\<rparr>)\<rparr>)"
    using s4(2,3) full l5 by (auto simp: transmit_packet_def)
  show ?thesis
    using s1(1) s2(1) s3(1) s4(1) s5 s1(8) s2(8) s3(8) s4(8)
    by (intro exI conjI) (assumption | simp)+
qed

section \<open>The receive completion loop\<close>

lemma rx_completion_loop_frame:
  assumes "rx_completion_loop ring packets flag = Some (Return (ring', packets', flag'))"
  shows "ring' = ring\<lparr>head := head ring'\<rparr> \<and> (ring_wf ring \<longrightarrow> ring_wf ring')
         \<and> \<not> descriptor_done ring' (unat (head ring'))"
proof -
  let ?P = "\<lambda>ring (packets :: u32) (flag :: bool) y.
        \<forall>ring' packets' flag'. y = Return (ring', packets', flag') \<longrightarrow>
           ring' = ring\<lparr>head := head ring'\<rparr> \<and> (ring_wf ring \<longrightarrow> ring_wf ring')
           \<and> \<not> descriptor_done ring' (unat (head ring'))"
  have "?P ring packets flag (Return (ring', packets', flag'))"
  proof (rule rx_completion_loop.raw_induct [where P = ?P, OF _ assms])
    fix loop :: "ring_buffer \<Rightarrow> u32 \<Rightarrow> bool \<Rightarrow> (ring_buffer \<times> u32 \<times> bool) exec option"
      and ring :: ring_buffer and packets :: u32 and flag :: bool
      and y :: "(ring_buffer \<times> u32 \<times> bool) exec"
    assume ih: "\<And>ring packets flag y. loop ring packets flag = Some y \<Longrightarrow> ?P ring packets flag y"
      and body: "(if unat (head ring) < length (desc ring)
        then if status (desc ring ! unat (head ring)) AND DESC_STATUS_DONE \<noteq> 0
          then if size_f ring = 0 then Some (Fault Division_by_zero)
            else loop (ring\<lparr>head := next_index (head ring) (size_f ring)\<rparr>) (packets + 1) True
          else Some (Return (ring, packets, flag))
        else Some (Fault Out_of_bounds)) = Some y"
    show "?P ring packets flag y"
    proof (cases "unat (head ring) < length (desc ring)
                  \<and> status (desc ring ! unat (head ring)) AND DESC_STATUS_DONE \<noteq> 0
                  \<and> size_f ring \<noteq> 0")
      case True
      let ?ring1 = "ring\<lparr>head := next_index (head ring) (size_f ring)\<rparr>"
      from True body have "loop ?ring1 (packets + 1) True = Some y" by simp
      from ih [OF this] have ih1: "?P ?ring1 (packets + 1) True y" .
      have wf1: "ring_wf ring \<Longrightarrow> ring_wf ?ring1"
        using True by (simp add: ring_wf_def next_index_less)
      show ?thesis
      proof (intro allI impI)
        fix ring' packets' flag'
        assume "y = Return (ring', packets', flag')"
        with ih1 have a: "ring' = ?ring1\<lparr>head := head ring'\<rparr>"
          and b: "ring_wf ?ring1 \<longrightarrow> ring_wf ring'"
          and c: "\<not> descriptor_done ring' (unat (head ring'))" by blast+
        have "ring' = ring\<lparr>head := head ring'\<rparr>" by (subst a) simp
        with b c wf1 show "ring' = ring\<lparr>head := head ring'\<rparr> \<and> (ring_wf ring \<longrightarrow> ring_wf ring')
           \<and> \<not> descriptor_done ring' (unat (head ring'))" by blast
      qed
    next
      case False
      with body show ?thesis
        by (auto simp: descriptor_done_def split: if_splits)
    qed
  qed
  then show ?thesis by blast
qed

lemma rx_completion_loop_diverges:
  assumes "ring_wf ring" and "all_done ring" and "length (desc ring) = unat (size_f ring)"
  shows "rx_completion_loop ring packets flag = None"
proof (cases "rx_completion_loop ring packets flag")
  case None
  then show ?thesis .
next
  case (Some y)
  let ?P = "\<lambda>ring (packets :: u32) (flag :: bool) (y :: (ring_buffer \<times> u32 \<times> bool) exec).
              \<not> (ring_wf ring \<and> all_done ring \<and> length (desc ring) = unat (size_f ring))"
  have "?P ring packets flag y"
  proof (rule rx_completion_loop.raw_induct [where P = ?P, OF _ Some])
    fix loop :: "ring_buffer \<Rightarrow> u32 \<Rightarrow> bool \<Rightarrow> (ring_buffer \<times> u32 \<times> bool) exec option"
      and ring :: ring_buffer and packets :: u32 and flag :: bool
      and y :: "(ring_buffer \<times> u32 \<times> bool) exec"
    assume ih: "\<And>ring packets flag y. loop ring packets flag = Some y \<Longrightarrow> ?P ring packets flag y"
      and body: "(if unat (head ring) < length (desc ring)
        then if status (desc ring ! unat (head ring)) AND DESC_STATUS_DONE \<noteq> 0
          then if size_f ring = 0 then Some (Fault Division_by_zero)
            else loop (ring\<lparr>head := next_index (head ring) (size_f ring)\<rparr>) (packets + 1) True
          else Some (Return (ring, packets, flag))
        else Some (Fault Out_of_bounds)) = Some y"
    show "?P ring packets flag y"
    proof
      assume a: "ring_wf ring \<and> all_done ring \<and> length (desc ring) = unat (size_f ring)"
      let ?ring1 = "ring\<lparr>head := next_index (head ring) (size_f ring)\<rparr>"
      from a have inb: "unat (head ring) < length (desc ring)" and nz: "size_f ring \<noteq> 0"
        by (auto simp: ring_wf_def unat_gt_0)
      from a inb have "status (desc ring ! unat (head ring)) AND DESC_STATUS_DONE \<noteq> 0"
        by (simp add: all_done_def list_all_length)
      with inb nz body have "loop ?ring1 (packets + 1) True = Some y" by simp
      from ih [OF this] a nz show False
        by (simp add: ring_wf_def all_done_def next_index_less)
    qed
  qed
  with assms show ?thesis by simp
qed

lemma rx_completion_loop_reaches:
  assumes "ring_wf ring"
    and "\<not> descriptor_done ring ((unat (head ring) + k) mod unat (size_f ring))"
  shows "\<exists>ring' packets' flag'.
           rx_completion_loop ring packets flag = Some (Return (ring', packets', flag'))"
  using assms
proof (induction k arbitrary: ring packets flag)
  case 0
  then have inb: "unat (head ring) < length (desc ring)"
    and nd: "\<not> descriptor_done ring (unat (head ring))"
    by (simp_all add: ring_wf_def)
  then show ?case
    by (subst rx_completion_loop.simps) (simp add: descriptor_done_def)
next
  case (Suc k)
  let ?n = "unat (size_f ring)"
  from Suc.prems(1) have w: "0 < ?n" "?n < 2 ^ 32" "?n \<le> length (desc ring)"
      "unat (head ring) < ?n"
    by (simp_all add: ring_wf_def)
  then have nz: "size_f ring \<noteq> 0" by (auto simp: unat_gt_0)
  show ?case
  proof (cases "descriptor_done ring (unat (head ring))")
    case False
    with w show ?thesis
      by (subst rx_completion_loop.simps) (simp add: descriptor_done_def)
  next
    case True
    let ?ring1 = "ring\<lparr>head := next_index (head ring) (size_f ring)\<rparr>"
    have nx: "unat (next_index (head ring) (size_f ring)) = Suc (unat (head ring)) mod ?n"
      using w by (simp add: unat_next_index_in_range)
    have wf1: "ring_wf ?ring1"
      using Suc.prems(1) nz by (simp add: ring_wf_def next_index_less)
    have "(unat (head ?ring1) + k) mod unat (size_f ?ring1)
            = (unat (head ring) + Suc k) mod ?n"
      by (simp add: nx mod_add_left_eq)
    with Suc.prems(2) have
      "\<not> descriptor_done ?ring1 ((unat (head ?ring1) + k) mod unat (size_f ?ring1))"
      by (simp add: descriptor_done_def)
    from Suc.IH [OF wf1 this, of "packets + 1" True]
    obtain ring' packets' flag' where
      "rx_completion_loop ?ring1 (packets + 1) True = Some (Return (ring', packets', flag'))"
      by blast
    moreover have "rx_completion_loop ring packets flag
                     = rx_completion_loop ?ring1 (packets + 1) True"
      using True w nz by (subst rx_completion_loop.simps) (simp add: descriptor_done_def)
    ultimately show ?thesis by simp
  qed
qed

lemma rx_completion_loop_returns:
  assumes "ring_wf ring" and "i < unat (size_f ring)" and "\<not> descriptor_done ring i"
  shows "\<exists>ring' packets' flag'.
           rx_completion_loop ring packets flag = Some (Return (ring', packets', flag'))"
proof -
  let ?n = "unat (size_f ring)" and ?h = "unat (head ring)"
  from assms(1) have h: "?h < ?n" by (simp add: ring_wf_def)
  have "(?h + (i + ?n - ?h)) mod ?n = (i + ?n) mod ?n" using h by simp
  also have "\<dots> = i" using assms(2) by simp
  finally have "\<not> descriptor_done ring ((?h + (i + ?n - ?h)) mod ?n)"
    using assms(3) by simp
  with assms(1) show ?thesis by (rule rx_completion_loop_reaches)
qed

section \<open>The interrupt handler\<close>

lemma handle_tx_completion_frame:
  assumes "handle_tx_completion dev int_status = Return (dev', flag)"
  shows "dev' = dev\<lparr>tx_ring := tx_ring dev'\<rparr>
       \<and> rel_ptr (\<lambda>a b. b = a\<lparr>tail := tail b, count := count b\<rparr>) (tx_ring dev) (tx_ring dev')"
proof (cases "int_status AND INT_STATUS_TX \<noteq> 0")
  case False
  with assms have "dev' = dev" by (simp add: handle_tx_completion_def)
  then show ?thesis by (simp add: ptr.rel_refl_strong)
next
  case True
  with assms obtain ring ring' where r: "tx_ring dev = Ref ring"
      "tx_completion_loop ring False = Return (ring', flag)" "dev' = dev\<lparr>tx_ring := Ref ring'\<rparr>"
    by (auto simp: handle_tx_completion_def split: ptr.splits exec.splits)
  from tx_completion_loop_frame [OF r(2)] r(1,3) show ?thesis by simp
qed

lemma handle_rx_completion_frame:
  assumes "handle_rx_completion dev int_status = Some (Return (dev', flag))"
  shows "dev' = dev\<lparr>rx_ring := rx_ring dev', rx_packets := rx_packets dev'\<rparr>
       \<and> rel_ptr (\<lambda>a b. b = a\<lparr>head := head b\<rparr> \<and> (ring_wf a \<longrightarrow> ring_wf b))
            (rx_ring dev) (rx_ring dev')"
proof (cases "int_status AND INT_STATUS_RX \<noteq> 0")
  case False
  with assms have "dev' = dev" by (simp add: handle_rx_completion_def)
  then show ?thesis by (simp add: ptr.rel_refl_strong)
next
  case True
  with assms obtain ring ring' packets where r: "rx_ring dev = Ref ring"
      "rx_completion_loop ring (rx_packets dev) False = Some (Return (ring', packets, flag))"
      "dev' = dev\<lparr>rx_ring := Ref ring', rx_packets := packets\<rparr>"
    by (auto simp: handle_rx_completion_def split: ptr.splits exec.splits option.splits)
  from rx_completion_loop_frame [OF r(2)] r(1,3) show ?thesis by simp
qed

lemma device_interrupt_frame:
  assumes "device_interrupt dev int_status = Some (Return (r, ev, dev'))"
  shows "dev' = dev\<lparr>tx_ring := tx_ring dev', rx_ring := rx_ring dev',
                     rx_packets := rx_packets dev', interrupts := interrupts dev'\<rparr>
       \<and> rel_ptr (\<lambda>a b. b = a\<lparr>tail := tail b, count := count b\<rparr>) (tx_ring dev) (tx_ring dev')
       \<and> rel_ptr (\<lambda>a b. b = a\<lparr>head := head b\<rparr> \<and> (ring_wf a \<longrightarrow> ring_wf b))
            (rx_ring dev) (rx_ring dev')"
proof (cases "int_status = 0")
  case True
  with assms have "dev' = dev" by (simp add: device_interrupt_def)
  then show ?thesis by (simp add: ptr.rel_refl_strong)
next
  case False
  let ?dev1 = "dev\<lparr>interrupts := interrupts dev + 1\<rparr>"
  from False assms obtain dev2 f2 f3 where
      t: "handle_tx_completion ?dev1 int_status = Return (dev2, f2)"
      and x: "handle_rx_completion dev2 int_status = Some (Return (dev', f3))"
    by (auto simp: device_interrupt_def Let_def split: exec.splits option.splits)
  from handle_tx_completion_frame [OF t] have
    t1: "dev2 = ?dev1\<lparr>tx_ring := tx_ring dev2\<rparr>"
    and t2: "rel_ptr (\<lambda>a b. b = a\<lparr>tail := tail b, count := count b\<rparr>) (tx_ring dev) (tx_ring dev2)"
    by simp_all
  from handle_rx_completion_frame [OF x] have
    x1: "dev' = dev2\<lparr>rx_ring := rx_ring dev', rx_packets := rx_packets dev'\<rparr>"
    and x2: "rel_ptr (\<lambda>a b. b = a\<lparr>head := head b\<rparr> \<and> (ring_wf a \<longrightarrow> ring_wf b))
               (rx_ring dev2) (rx_ring dev')"
    by simp_all
  have rx2: "rx_ring dev2 = rx_ring dev" by (subst t1) simp
  have tx': "tx_ring dev' = tx_ring dev2" by (subst x1) simp
  have "dev' = dev\<lparr>tx_ring := tx_ring dev', rx_ring := rx_ring dev',
                     rx_packets := rx_packets dev', interrupts := interrupts dev'\<rparr>"
    apply (subst x1) apply (subst t1) apply (subst (3) x1) apply (subst (2) t1)
    apply (simp add: tx')
    done
  with t2 x2 rx2 tx' show ?thesis by simp
qed

lemma device_interrupt_overflow:
  assumes "device_interrupt dev int_status = Some (Return (r, ev, dev'))"
  shows "map_ptr overflow_count (tx_ring dev') = map_ptr overflow_count (tx_ring dev)
       \<and> map_ptr overflow_count (rx_ring dev') = map_ptr overflow_count (rx_ring dev)"
proof -
  from device_interrupt_frame [OF assms] have
    t: "rel_ptr (\<lambda>a b. b = a\<lparr>tail := tail b, count := count b\<rparr>) (tx_ring dev) (tx_ring dev')"
    and x: "rel_ptr (\<lambda>a b. b = a\<lparr>head := head b\<rparr> \<and> (ring_wf a \<longrightarrow> ring_wf b))
            (rx_ring dev) (rx_ring dev')" by simp_all
  from t have "rel_ptr (\<lambda>a b. \<exists>t c. b = a\<lparr>tail := t, count := c\<rparr>) (tx_ring dev) (tx_ring dev')"
    by (rule ptr.rel_mono_strong) blast
  then have "map_ptr overflow_count (tx_ring dev') = map_ptr overflow_count (tx_ring dev)"
    by (cases "tx_ring dev"; cases "tx_ring dev'") auto
  moreover from x have "rel_ptr (\<lambda>a b. \<exists>h. b = a\<lparr>head := h\<rparr>) (rx_ring dev) (rx_ring dev')"
    by (rule ptr.rel_mono_strong) blast
  then have "map_ptr overflow_count (rx_ring dev') = map_ptr overflow_count (rx_ring dev)"
    by (cases "rx_ring dev"; cases "rx_ring dev'") auto
  ultimately show ?thesis by simp
qed

lemma device_interrupt_descriptors:
  assumes "device_interrupt dev int_status = Some (Return (r, ev, dev'))"
  shows "map_ptr desc (tx_ring dev') = map_ptr desc (tx_ring dev)
       \<and> map_ptr desc (rx_ring dev') = map_ptr desc (rx_ring dev)"
proof -
  from device_interrupt_frame [OF assms] have
    t: "rel_ptr (\<lambda>a b. b = a\<lparr>tail := tail b, count := count b\<rparr>) (tx_ring dev) (tx_ring dev')"
    and x: "rel_ptr (\<lambda>a b. b = a\<lparr>head := head b\<rparr> \<and> (ring_wf a \<longrightarrow> ring_wf b))
            (rx_ring dev) (rx_ring dev')" by simp_all
  from t have "rel_ptr (\<lambda>a b. \<exists>t c. b = a\<lparr>tail := t, count := c\<rparr>) (tx_ring dev) (tx_ring dev')"
    by (rule ptr.rel_mono_strong) blast
  then have "map_ptr desc (tx_ring dev') = map_ptr desc (tx_ring dev)"
    by (cases "tx_ring dev"; cases "tx_ring dev'") auto
  moreover from x have "rel_ptr (\<lambda>a b. \<exists>h. b = a\<lparr>head := h\<rparr>) (rx_ring dev) (rx_ring dev')"
    by (rule ptr.rel_mono_strong) blast
  then have "map_ptr desc (rx_ring dev') = map_ptr desc (rx_ring dev)"
    by (cases "rx_ring dev"; cases "rx_ring dev'") auto
  ultimately show ?thesis by simp
qed

lemma handle_tx_completion_invariant:
  assumes "handle_tx_completion dev int_status = Return (dev', flag)"
    and "tx_ring dev = Ref tx" and "ring_wf tx" and "ring_invariant tx"
  shows "\<exists>tx'. tx_ring dev' = Ref tx' \<and> ring_wf tx' \<and> ring_invariant tx'"
proof (cases "int_status AND INT_STATUS_TX \<noteq> 0")
  case False
  with assms show ?thesis by (simp add: handle_tx_completion_def)
next
  case True
  from tx_completion_loop_invariant [OF assms(3,4), of False]
  obtain ring' b where "tx_completion_loop tx False = Return (ring', b)"
      "ring_wf ring'" "ring_invariant ring'" by blast
  with True assms(1,2) show ?thesis
    by (auto simp: handle_tx_completion_def)
qed

lemma device_interrupt_invariant:
  assumes "device_interrupt dev int_status = Some (Return (r, ev, dev'))"
    and "tx_ring dev = Ref tx" and "ring_wf tx" and "ring_invariant tx"
    and "rx_ring dev = Ref rx" and "ring_wf rx"
  shows "\<exists>tx' rx'. tx_ring dev' = Ref tx' \<and> ring_wf tx' \<and> ring_invariant tx'
           \<and> rx_ring dev' = Ref rx' \<and> ring_wf rx'
           \<and> tail rx' = tail rx \<and> count rx' = count rx"
proof (cases "int_status = 0")
  case True
  with assms show ?thesis by (simp add: device_interrupt_def)
next
  case False
  let ?dev1 = "dev\<lparr>interrupts := interrupts dev + 1\<rparr>"
  from False assms(1) obtain dev2 f2 f3 where
      t: "handle_tx_completion ?dev1 int_status = Return (dev2, f2)"
      and x: "handle_rx_completion dev2 int_status = Some (Return (dev', f3))"
    by (auto simp: device_interrupt_def Let_def split: exec.splits option.splits)
  have "tx_ring ?dev1 = Ref tx" using assms(2) by simp
  from handle_tx_completion_invariant [OF t this assms(3,4)]
  obtain tx' where tx': "tx_ring dev2 = Ref tx'" "ring_wf tx'" "ring_invariant tx'" by blast
  from handle_tx_completion_frame [OF t] have "dev2 = ?dev1\<lparr>tx_ring := tx_ring dev2\<rparr>"
    by simp
  then have "rx_ring dev2 = rx_ring ?dev1" by (metis pci_device.select_convs(3) pci_device.surjective pci_device.update_convs(2))
  then have rx2: "rx_ring dev2 = Ref rx" using assms(5) by simp
  from handle_rx_completion_frame [OF x] have
    x1: "dev' = dev2\<lparr>rx_ring := rx_ring dev', rx_packets := rx_packets dev'\<rparr>"
    and x2: "rel_ptr (\<lambda>a b. b = a\<lparr>head := head b\<rparr> \<and> (ring_wf a \<longrightarrow> ring_wf b))
               (rx_ring dev2) (rx_ring dev')"
    by simp_all
  have txf: "tx_ring dev' = tx_ring dev2" by (subst x1) simp
  from x2 rx2 obtain rx' where rx': "rx_ring dev' = Ref rx'" "rx' = rx\<lparr>head := head rx'\<rparr>"
      "ring_wf rx \<longrightarrow> ring_wf rx'"
    by (cases "rx_ring dev'") auto
  have "tail rx' = tail rx" "count rx' = count rx"
    by (subst rx'(2), simp)+
  with tx' txf rx' assms(6) show ?thesis by simp
qed

section \<open>Runs\<close>

lemma device_completes_wf:
  "ring_wf (device_completes i ring) = ring_wf ring"
  "ring_invariant (device_completes i ring) = ring_invariant ring"
  "tail (device_completes i ring) = tail ring"
  "count (device_completes i ring) = count ring"
  by (simp_all add: device_completes_def ring_wf_def ring_invariant_def)

lemma apply_operation_underrun:
  assumes "apply_operation x dev = Some (Return dev')"
  shows "map_ptr underrun_count (tx_ring dev') = map_ptr underrun_count (tx_ring dev)
       \<and> map_ptr underrun_count (rx_ring dev') = map_ptr underrun_count (rx_ring dev)"
proof (cases x)
  case (Transmit data len)
  with assms obtain rc ev where "transmit_packet dev data len = Return (rc, ev, dev')"
    by (auto split: exec.splits)
  from transmit_packet_frame [OF this] have
    a: "dev' = dev\<lparr>tx_ring := tx_ring dev', tx_packets := tx_packets dev'\<rparr>"
    and b: "rel_ptr (\<lambda>a b. b = a\<lparr>desc := desc b, data_buffers := data_buffers b,
                               head := head b, count := count b,
                               overflow_count := overflow_count b\<rparr>)
            (tx_ring dev) (tx_ring dev')" by simp_all
  have "rx_ring dev' = rx_ring dev" by (subst a) simp
  moreover from b have "rel_ptr (\<lambda>a b. \<exists>d bs h c v. b = a\<lparr>desc := d, data_buffers := bs,
                               head := h, count := c, overflow_count := v\<rparr>)
            (tx_ring dev) (tx_ring dev')"
    by (rule ptr.rel_mono_strong) blast
  then have "map_ptr underrun_count (tx_ring dev') = map_ptr underrun_count (tx_ring dev)"
    by (cases "tx_ring dev"; cases "tx_ring dev'") auto
  ultimately show ?thesis by simp
next
  case (Interrupt int_status)
  with assms obtain r ev where "device_interrupt dev int_status = Some (Return (r, ev, dev'))"
    by (auto split: exec.splits option.splits)
  from device_interrupt_frame [OF this] have
    t: "rel_ptr (\<lambda>a b. b = a\<lparr>tail := tail b, count := count b\<rparr>) (tx_ring dev) (tx_ring dev')"
    and x: "rel_ptr (\<lambda>a b. b = a\<lparr>head := head b\<rparr> \<and> (ring_wf a \<longrightarrow> ring_wf b))
            (rx_ring dev) (rx_ring dev')" by simp_all
  from t have "rel_ptr (\<lambda>a b. \<exists>t c. b = a\<lparr>tail := t, count := c\<rparr>) (tx_ring dev) (tx_ring dev')"
    by (rule ptr.rel_mono_strong) blast
  then have "map_ptr underrun_count (tx_ring dev') = map_ptr underrun_count (tx_ring dev)"
    by (cases "tx_ring dev"; cases "tx_ring dev'") auto
  moreover from x have "rel_ptr (\<lambda>a b. \<exists>h. b = a\<lparr>head := h\<rparr>) (rx_ring dev) (rx_ring dev')"
    by (rule ptr.rel_mono_strong) blast
  then have "map_ptr underrun_count (rx_ring dev') = map_ptr underrun_count (rx_ring dev)"
    by (cases "rx_ring dev"; cases "rx_ring dev'") auto
  ultimately show ?thesis by simp
next
  case (Completion rid i)
  with assms show ?thesis
    by (cases rid; cases "tx_ring dev"; cases "rx_ring dev") (auto simp: device_completes_def)
qed

lemma run_underrun:
  assumes "run ops dev = Some (Return dev')"
  shows "map_ptr underrun_count (tx_ring dev') = map_ptr underrun_count (tx_ring dev)
       \<and> map_ptr underrun_count (rx_ring dev') = map_ptr underrun_count (rx_ring dev)"
  using assms
proof (induction ops arbitrary: dev)
  case Nil
  then show ?case by simp
next
  case (Cons x xs)
  from Cons.prems obtain dev1 where a: "apply_operation x dev = Some (Return dev1)"
    and b: "run xs dev1 = Some (Return dev')"
    by (auto split: option.splits exec.splits)
  from apply_operation_underrun [OF a] Cons.IH [OF b] show ?case by simp
qed

lemma apply_operation_invariant:
  assumes "apply_operation x dev = Some (Return dev')"
    and "tx_ring dev = Ref tx" and "ring_wf tx" and "ring_invariant tx"
    and "rx_ring dev = Ref rx" and "ring_wf rx"
  shows "\<exists>tx' rx'. tx_ring dev' = Ref tx' \<and> ring_wf tx' \<and> ring_invariant tx'
           \<and> rx_ring dev' = Ref rx' \<and> ring_wf rx'
           \<and> tail rx' = tail rx \<and> count rx' = count rx"
proof (cases x)
  case (Transmit data len)
  with assms(1) obtain rc ev where "transmit_packet dev data len = Return (rc, ev, dev')"
    by (auto split: exec.splits)
  from transmit_packet_invariant [OF this assms(2,3,4)] assms(5,6) show ?thesis by auto
next
  case (Interrupt int_status)
  with assms(1) obtain r ev where "device_interrupt dev int_status = Some (Return (r, ev, dev'))"
    by (auto split: exec.splits option.splits)
  from device_interrupt_invariant [OF this assms(2-6)] show ?thesis .
next
  case (Completion rid i)
  with assms show ?thesis
    by (cases rid) (auto simp: device_completes_wf)
qed

lemma run_invariant:
  assumes "run ops dev = Some (Return dev')"
    and "tx_ring dev = Ref tx" and "ring_wf tx" and "ring_invariant tx"
    and "rx_ring dev = Ref rx" and "ring_wf rx"
  shows "\<exists>tx' rx'. tx_ring dev' = Ref tx' \<and> ring_wf tx' \<and> ring_invariant tx'
           \<and> rx_ring dev' = Ref rx' \<and> ring_wf rx'
           \<and> tail rx' = tail rx \<and> count rx' = count rx"
  using assms
proof (induction ops arbitrary: dev tx rx)
  case Nil
  then show ?case by simp
next
  case (Cons x xs)
  from Cons.prems(1) obtain dev1 where a: "apply_operation x dev = Some (Return dev1)"
    and b: "run xs dev1 = Some (Return dev')"
    by (auto split: option.splits exec.splits)
  from apply_operation_invariant [OF a Cons.prems(2-6)]
  obtain tx1 rx1 where s: "tx_ring dev1 = Ref tx1" "ring_wf tx1" "ring_invariant tx1"
      "rx_ring dev1 = Ref rx1" "ring_wf rx1" "tail rx1 = tail rx" "count rx1 = count rx"
    by blast
  from Cons.IH [OF b s(1-5)] s(6,7) show ?case by auto
qed

section \<open>Interleavings of claim, publish and interrupt\<close>

lemma tx_completion_loop_idle:
  "count ring = 0 \<Longrightarrow> tx_completion_loop ring flag = Return (ring, flag)"
  by (simp add: tx_completion_loop.simps [of ring])

lemma tx_completion_loop_wf:
  assumes wf: "ring_wf ring" and ret: "tx_completion_loop ring flag = Return (ring', b)"
  shows "ring_wf ring' \<and> unat (count ring') \<le> unat (count ring)
       \<and> size_f ring' = size_f ring \<and> head ring' = head ring \<and> desc ring' = desc ring
       \<and> overflow_count ring' = overflow_count ring
       \<and> (ring_invariant ring \<longrightarrow> ring_invariant ring')"
proof -
  let ?n = "unat (size_f ring)" and ?k = "length (reclaim_ready ring)"
  from tx_completion_loop_reclaims [OF wf, of flag] ret
  have r: "ring' = ring\<lparr>tail := tail ring', count := count ring'\<rparr>"
      "unat (tail ring') = (unat (tail ring) + ?k) mod ?n"
      "unat (count ring') = unat (count ring) - ?k"
    by auto
  have same: "size_f ring' = size_f ring" "head ring' = head ring" "desc ring' = desc ring"
      "overflow_count ring' = overflow_count ring"
    by (subst r(1), simp)+
  have pos: "0 < ?n" using wf by (simp add: ring_wf_def)
  have "ring_wf ring'"
    using wf pos by (simp add: ring_wf_def same r(2))
  moreover have "unat (count ring') \<le> unat (count ring)" using r(3) by simp
  moreover have "ring_invariant ring'" if "ring_invariant ring"
    using tx_completion_loop_invariant [OF wf that, of flag] ret by auto
  ultimately show ?thesis using same by blast
qed

lemma device_interrupt_effect:
  assumes ret: "device_interrupt dev int_status = Some (Return (r, ev, dev'))"
    and tx: "tx_ring dev = Ref tx" and wf: "ring_wf tx" and rx: "rx_ring dev = Ref rx"
  shows "\<exists>tx' rx'. tx_ring dev' = Ref tx' \<and> rx_ring dev' = Ref rx'
           \<and> ring_wf tx' \<and> unat (count tx') \<le> unat (count tx)
           \<and> size_f tx' = size_f tx \<and> head tx' = head tx \<and> desc tx' = desc tx
           \<and> overflow_count tx' = overflow_count tx
           \<and> (ring_invariant tx \<longrightarrow> ring_invariant tx')
           \<and> tail rx' = tail rx \<and> count rx' = count rx \<and> desc rx' = desc rx
           \<and> (ring_wf rx \<longrightarrow> ring_wf rx')"
proof -
  from device_interrupt_frame [OF ret] have
    x: "rel_ptr (\<lambda>a b. b = a\<lparr>head := head b\<rparr> \<and> (ring_wf a \<longrightarrow> ring_wf b))
            (rx_ring dev) (rx_ring dev')" by simp
  from x rx obtain rx' where rx': "rx_ring dev' = Ref rx'" "rx' = rx\<lparr>head := head rx'\<rparr>"
      "ring_wf rx \<longrightarrow> ring_wf rx'"
    by (cases "rx_ring dev'") auto
  have rxs: "tail rx' = tail rx" "count rx' = count rx" "desc rx' = desc rx"
    by (subst rx'(2), simp)+
  have "\<exists>tx'. tx_ring dev' = Ref tx'
           \<and> ring_wf tx' \<and> unat (count tx') \<le> unat (count tx)
           \<and> size_f tx' = size_f tx \<and> head tx' = head tx \<and> desc tx' = desc tx
           \<and> overflow_count tx' = overflow_count tx
           \<and> (ring_invariant tx \<longrightarrow> ring_invariant tx')"
  proof (cases "int_status = 0")
    case True
    with ret have "dev' = dev" by (simp add: device_interrupt_def)
    with tx wf show ?thesis by simp
  next
    case False
    let ?dev1 = "dev\<lparr>interrupts := interrupts dev + 1\<rparr>"
    from False ret obtain dev2 f2 f3 where
        t: "handle_tx_completion ?dev1 int_status = Return (dev2, f2)"
        and h: "handle_rx_completion dev2 int_status = Some (Return (dev', f3))"
      by (auto simp: device_interrupt_def Let_def split: exec.splits option.splits)
    from handle_rx_completion_frame [OF h] have
      x1: "dev' = dev2\<lparr>rx_ring := rx_ring dev', rx_packets := rx_packets dev'\<rparr>" by simp
    have txf: "tx_ring dev' = tx_ring dev2" by (subst x1) simp
    show ?thesis
    proof (cases "int_status AND INT_STATUS_TX \<noteq> 0")
      case False
      with t have "dev2 = ?dev1" by (simp add: handle_tx_completion_def)
      with txf tx wf show ?thesis by simp
    next
      case True
      with t tx obtain ring' where l: "tx_completion_loop tx False = Return (ring', f2)"
          and d: "dev2 = ?dev1\<lparr>tx_ring := Ref ring'\<rparr>"
        by (auto simp: handle_tx_completion_def split: exec.splits)
      from tx_completion_loop_wf [OF wf l] d txf show ?thesis by simp
    qed
  qed
  with rx' rxs show ?thesis by blast
qed

lemma transmit_packet_phases:
  "transmit_packet dev data len =
     (case transmit_packet_claim dev data len of
        Fault f \<Rightarrow> Fault f
      | Return (Inl e, ev, dev1) \<Rightarrow> Return (Inl e, ev, dev1)
      | Return (Inr idx, ev, dev1) \<Rightarrow>
          (case transmit_packet_publish dev1 idx len of
             Fault f \<Rightarrow> Fault f
           | Return (ev2, dev2) \<Rightarrow> Return (Inr (), ev @ ev2, dev2)))"
  by (auto simp: transmit_packet_def transmit_packet_claim_def transmit_packet_publish_def
        Let_def split: ptr.splits option.splits exec.splits)

lemma transmit_packet_claim_effect:
  assumes ret: "transmit_packet_claim dev data len = Return (rc, ev, dev')"
    and tx: "tx_ring dev = Ref ring"
  shows "rx_ring dev' = rx_ring dev
       \<and> (\<exists>ring'. tx_ring dev' = Ref ring'
            \<and> desc ring' = desc ring \<and> size_f ring' = size_f ring
            \<and> head ring' = head ring \<and> tail ring' = tail ring \<and> count ring' = count ring
            \<and> overflow_count ring' =
                (if rc = Inl ENOBUFS then overflow_count ring + 1 else overflow_count ring))
       \<and> (rc = Inl ENOBUFS) =
           (started dev \<and> len \<le> of_nat MAX_FRAME_SIZE \<and> unat (size_f ring) \<le> unat (count ring))
       \<and> (\<forall>idx. rc = Inr idx \<longrightarrow> idx = head ring \<and> unat (count ring) < unat (size_f ring))"
  using assms
  by (auto simp: transmit_packet_claim_def size_le_ucast Let_def
           split: if_splits option.splits exec.splits)

lemma transmit_packet_publish_effect:
  assumes ret: "transmit_packet_publish dev idx len = Return (ev, dev')"
    and tx: "tx_ring dev = Ref ring" and range: "unat idx < unat (size_f ring)"
  shows "unat idx < length (desc ring)
       \<and> rx_ring dev' = rx_ring dev
       \<and> tx_ring dev' = Ref (ring\<lparr>desc := (desc ring)[unat idx :=
                        \<lparr>buffer_addr = ucast (data_addrs ring ! unat idx),
                         length_f = ucast len, status = 0,
                         control = DESC_FLAG_OWNER_HW OR DESC_FLAG_INTR_ENABLE\<rparr>],
                      head := next_index idx (size_f ring),
                      count := count ring + 1\<rparr>)"
  using assms
  by (auto simp: transmit_packet_publish_def update_tx_descriptor_def ucast_less_size Let_def
           split: if_splits exec.splits)

lemma transmit_packet_publish_descriptors:
  assumes ret: "transmit_packet_publish dev idx len = Return (ev, dev')"
    and tx: "tx_ring dev = Ref ring"
  shows "rx_ring dev' = rx_ring dev
       \<and> (\<exists>ring'. tx_ring dev' = Ref ring'
            \<and> (desc ring' = desc ring
                \<or> desc ring' = (desc ring)[unat idx :=
                        \<lparr>buffer_addr = ucast (data_addrs ring ! unat idx),
                         length_f = ucast len, status = 0,
                         control = DESC_FLAG_OWNER_HW OR DESC_FLAG_INTR_ENABLE\<rparr>]))"
  using assms
  by (auto simp: transmit_packet_publish_def update_tx_descriptor_def Let_def
           split: if_splits exec.splits)

lemma claim_fails_full_iff:
  assumes "tx_ring (device s) = Ref tx"
  shows "claim_fails_full (Claim t data len) s =
           (claimed s t = None \<and> started (device s) \<and> len \<le> of_nat MAX_FRAME_SIZE
            \<and> unat (size_f tx) \<le> unat (count tx))"
  using assms
  by (auto simp: claim_fails_full_def transmit_packet_claim_def size_le_ucast Let_def
           split: exec.splits option.splits if_splits)

lemma apply_step_wf:
  assumes st: "apply_step x s = Some (Return s')"
    and tx: "tx_ring (device s) = Ref tx" and wf: "ring_wf tx"
    and rx: "rx_ring (device s) = Ref rx" and wfr: "ring_wf rx"
    and range: "\<forall>t idx len. claimed s t = Some (idx, len) \<longrightarrow> unat idx < unat (size_f tx)"
  shows "\<exists>tx' rx'. tx_ring (device s') = Ref tx' \<and> ring_wf tx' \<and> size_f tx' = size_f tx
           \<and> rx_ring (device s') = Ref rx' \<and> ring_wf rx'
           \<and> tail rx' = tail rx \<and> count rx' = count rx
           \<and> (\<forall>t idx len. claimed s' t = Some (idx, len) \<longrightarrow> unat idx < unat (size_f tx'))
           \<and> overflow_count tx' =
               (if claim_fails_full x s then overflow_count tx + 1 else overflow_count tx)"
proof (cases x)
  case (Claim t data len)
  show ?thesis
  proof (cases "claimed s t")
    case (Some c)
    with Claim st have "s' = s" by simp
    moreover have "\<not> claim_fails_full x s" using Claim Some by (simp add: claim_fails_full_def)
    ultimately show ?thesis using tx wf rx wfr range by simp
  next
    case None
    with Claim st obtain rc ev dev' where
      c: "transmit_packet_claim (device s) data len = Return (rc, ev, dev')"
      by (auto split: exec.splits)
    have ff: "claim_fails_full x s = (rc = Inl ENOBUFS)"
      using Claim None c by (simp add: claim_fails_full_def)
    from transmit_packet_claim_effect [OF c tx] obtain tx' where
      e: "rx_ring dev' = rx_ring (device s)" "tx_ring dev' = Ref tx'"
         "desc tx' = desc tx" "size_f tx' = size_f tx" "head tx' = head tx"
         "tail tx' = tail tx" "count tx' = count tx"
         "overflow_count tx' =
            (if rc = Inl ENOBUFS then overflow_count tx + 1 else overflow_count tx)"
         "\<forall>idx. rc = Inr idx \<longrightarrow> idx = head tx \<and> unat (count tx) < unat (size_f tx)"
      by blast
    have wf': "ring_wf tx'" using wf e(3-6) by (simp add: ring_wf_def)
    have hd: "unat (head tx) < unat (size_f tx)" using wf by (simp add: ring_wf_def)
    show ?thesis
    proof (cases rc)
      case (Inl err)
      with Claim None c st have "s' = s\<lparr>device := dev'\<rparr>" by simp
      then show ?thesis using e wf' rx wfr range ff by simp
    next
      case (Inr idx)
      with Claim None c st have
        s': "s' = s\<lparr>device := dev', claimed := (claimed s)(t := Some (idx, len))\<rparr>" by simp
      from e(9) Inr have "idx = head tx" by simp
      with hd have "unat idx < unat (size_f tx)" by simp
      then show ?thesis using s' e wf' rx wfr range ff by simp
    qed
  qed
next
  case (Publish t)
  have nf: "\<not> claim_fails_full x s" using Publish by (simp add: claim_fails_full_def)
  show ?thesis
  proof (cases "claimed s t")
    case None
    with Publish st have "s' = s" by simp
    then show ?thesis using tx wf rx wfr range nf by simp
  next
    case (Some c)
    obtain idx len where c: "c = (idx, len)" by (cases c)
    with Some range have r: "unat idx < unat (size_f tx)" by blast
    from Publish Some c st obtain ev dev' where
      p: "transmit_packet_publish (device s) idx len = Return (ev, dev')"
      and s': "s' = s\<lparr>device := dev', claimed := (claimed s)(t := None)\<rparr>"
      by (auto split: exec.splits)
    let ?tx' = "tx\<lparr>desc := (desc tx)[unat idx :=
                        \<lparr>buffer_addr = ucast (data_addrs tx ! unat idx),
                         length_f = ucast len, status = 0,
                         control = DESC_FLAG_OWNER_HW OR DESC_FLAG_INTR_ENABLE\<rparr>],
                      head := next_index idx (size_f tx),
                      count := count tx + 1\<rparr>"
    from transmit_packet_publish_effect [OF p tx r] have
      e: "rx_ring dev' = rx_ring (device s)" "tx_ring dev' = Ref ?tx'" by simp_all
    from wf have nz: "size_f tx \<noteq> 0" by (auto simp: ring_wf_def unat_gt_0)
    have wf': "ring_wf ?tx'" using wf nz by (simp add: ring_wf_def next_index_less)
    show ?thesis using s' e wf' rx wfr range nf by simp
  qed
next
  case (Irq int_status)
  have nf: "\<not> claim_fails_full x s" using Irq by (simp add: claim_fails_full_def)
  from Irq st obtain r ev dev' where
    i: "device_interrupt (device s) int_status = Some (Return (r, ev, dev'))"
    and s': "s' = s\<lparr>device := dev'\<rparr>"
    by (auto split: exec.splits option.splits)
  from device_interrupt_effect [OF i tx wf rx] wfr
  obtain tx' rx' where "tx_ring dev' = Ref tx'" "rx_ring dev' = Ref rx'" "ring_wf tx'"
      "size_f tx' = size_f tx" "overflow_count tx' = overflow_count tx"
      "tail rx' = tail rx" "count rx' = count rx" "ring_wf rx'"
    by blast
  then show ?thesis using s' range nf by simp
next
  case (Device_done rid i)
  have nf: "\<not> claim_fails_full x s" using Device_done by (simp add: claim_fails_full_def)
  show ?thesis
  proof (cases rid)
    case TX
    with Device_done st have
      "s' = s\<lparr>device := (device s)\<lparr>tx_ring := Ref (device_completes i tx)\<rparr>\<rparr>"
      using tx by simp
    moreover have "size_f (device_completes i tx) = size_f tx"
      "overflow_count (device_completes i tx) = overflow_count tx"
      by (simp_all add: device_completes_def)
    ultimately show ?thesis using wf rx wfr range nf by (simp add: device_completes_wf)
  next
    case RX
    with Device_done st have
      "s' = s\<lparr>device := (device s)\<lparr>rx_ring := Ref (device_completes i rx)\<rparr>\<rparr>"
      using rx by simp
    then show ?thesis using tx wf wfr range nf by (simp add: device_completes_wf)
  qed
qed

lemma schedule_wf:
  assumes "schedule steps s = Some (Return s')"
    and "tx_ring (device s) = Ref tx" and "ring_wf tx"
    and "rx_ring (device s) = Ref rx" and "ring_wf rx"
    and "\<forall>t idx len. claimed s t = Some (idx, len) \<longrightarrow> unat idx < unat (size_f tx)"
  shows "\<exists>tx' rx'. tx_ring (device s') = Ref tx' \<and> ring_wf tx' \<and> size_f tx' = size_f tx
           \<and> rx_ring (device s') = Ref rx' \<and> ring_wf rx'
           \<and> tail rx' = tail rx \<and> count rx' = count rx
           \<and> (\<forall>t idx len. claimed s' t = Some (idx, len) \<longrightarrow> unat idx < unat (size_f tx'))"
  using assms
proof (induction steps arbitrary: s tx rx)
  case Nil
  then show ?case by simp
next
  case (Cons x xs)
  from Cons.prems(1) obtain s1 where a: "apply_step x s = Some (Return s1)"
    and b: "schedule xs s1 = Some (Return s')"
    by (auto split: option.splits exec.splits)
  from apply_step_wf [OF a Cons.prems(2-6)]
  obtain tx1 rx1 where s: "tx_ring (device s1) = Ref tx1" "ring_wf tx1"
      "rx_ring (device s1) = Ref rx1" "ring_wf rx1"
      "\<forall>t idx len. claimed s1 t = Some (idx, len) \<longrightarrow> unat idx < unat (size_f tx1)"
      and k: "size_f tx1 = size_f tx" "tail rx1 = tail rx" "count rx1 = count rx"
    by blast
  from Cons.IH [OF b s] k show ?case by auto
qed

lemma apply_step_invariant:
  assumes st: "apply_step x s = Some (Return s')"
    and pr: "producer x = None \<or> producer x = Some t"
    and tx: "tx_ring (device s) = Ref tx" and wf: "ring_wf tx" and inv: "ring_invariant tx"
    and rx: "rx_ring (device s) = Ref rx"
    and others: "\<forall>t'. t' \<noteq> t \<longrightarrow> claimed s t' = None"
    and pend: "\<forall>idx len. claimed s t = Some (idx, len) \<longrightarrow>
                 idx = head tx \<and> unat (count tx) < unat (size_f tx)"
  shows "\<exists>tx'. tx_ring (device s') = Ref tx' \<and> ring_invariant tx'
           \<and> (\<forall>t'. t' \<noteq> t \<longrightarrow> claimed s' t' = None)
           \<and> (\<forall>idx len. claimed s' t = Some (idx, len) \<longrightarrow>
                 idx = head tx' \<and> unat (count tx') < unat (size_f tx'))"
proof (cases x)
  case (Claim t' data len)
  with pr have t': "t' = t" by simp
  show ?thesis
  proof (cases "claimed s t")
    case (Some c)
    with Claim t' st have "s' = s" by simp
    then show ?thesis using tx inv others pend by simp
  next
    case None
    with Claim t' st obtain rc ev dev' where
      c: "transmit_packet_claim (device s) data len = Return (rc, ev, dev')"
      by (auto split: exec.splits)
    from transmit_packet_claim_effect [OF c tx] obtain tx' where
      e: "tx_ring dev' = Ref tx'"
         "size_f tx' = size_f tx" "head tx' = head tx"
         "tail tx' = tail tx" "count tx' = count tx"
         "\<forall>idx. rc = Inr idx \<longrightarrow> idx = head tx \<and> unat (count tx) < unat (size_f tx)"
      by blast
    have inv': "ring_invariant tx'" using inv e(2-5) by (simp add: ring_invariant_def)
    show ?thesis
    proof (cases rc)
      case (Inl err)
      with Claim t' None c st have "s' = s\<lparr>device := dev'\<rparr>" by simp
      then show ?thesis using e inv' others pend None by simp
    next
      case (Inr idx)
      with Claim t' None c st have
        s': "s' = s\<lparr>device := dev', claimed := (claimed s)(t := Some (idx, len))\<rparr>" by simp
      from e(6) Inr have "idx = head tx" "unat (count tx) < unat (size_f tx)" by simp_all
      then show ?thesis using s' e inv' others by simp
    qed
  qed
next
  case (Publish t')
  with pr have t': "t' = t" by simp
  show ?thesis
  proof (cases "claimed s t")
    case None
    with Publish t' st have "s' = s" by simp
    then show ?thesis using tx inv others pend by simp
  next
    case (Some c)
    obtain idx len where c: "c = (idx, len)" by (cases c)
    with Some pend have i: "idx = head tx" and room: "unat (count tx) < unat (size_f tx)"
      by blast+
    from wf i have r: "unat idx < unat (size_f tx)" by (simp add: ring_wf_def)
    from Publish t' Some c st obtain ev dev' where
      p: "transmit_packet_publish (device s) idx len = Return (ev, dev')"
      and s': "s' = s\<lparr>device := dev', claimed := (claimed s)(t := None)\<rparr>"
      by (auto split: exec.splits)
    let ?d = "\<lparr>buffer_addr = ucast (data_addrs tx ! unat idx),
                         length_f = ucast len, status = 0,
                         control = DESC_FLAG_OWNER_HW OR DESC_FLAG_INTR_ENABLE\<rparr>"
    let ?tx' = "tx\<lparr>desc := (desc tx)[unat idx := ?d],
                      head := next_index idx (size_f tx),
                      count := count tx + 1\<rparr>"
    from transmit_packet_publish_effect [OF p tx r] have
      e: "tx_ring dev' = Ref ?tx'" by simp
    from publish_invariant [OF wf inv room, of "unat idx" ?d] i
    have "ring_invariant ?tx'" by simp
    then show ?thesis using s' e others by simp
  qed
next
  case (Irq int_status)
  from Irq st obtain r ev dev' where
    i: "device_interrupt (device s) int_status = Some (Return (r, ev, dev'))"
    and s': "s' = s\<lparr>device := dev'\<rparr>"
    by (auto split: exec.splits option.splits)
  from device_interrupt_effect [OF i tx wf rx] inv
  obtain tx' where "tx_ring dev' = Ref tx'" "unat (count tx') \<le> unat (count tx)"
      "size_f tx' = size_f tx" "head tx' = head tx" "ring_invariant tx'"
    by blast
  then show ?thesis using s' others pend by fastforce
next
  case (Device_done rid i)
  show ?thesis
  proof (cases rid)
    case TX
    with Device_done st have
      "s' = s\<lparr>device := (device s)\<lparr>tx_ring := Ref (device_completes i tx)\<rparr>\<rparr>"
      using tx by simp
    moreover have "size_f (device_completes i tx) = size_f tx"
      "head (device_completes i tx) = head tx"
      by (simp_all add: device_completes_def)
    ultimately show ?thesis using inv others pend by (simp add: device_completes_wf)
  next
    case RX
    with Device_done st have
      "s' = s\<lparr>device := (device s)\<lparr>rx_ring := Ref (device_completes i rx)\<rparr>\<rparr>"
      using rx by simp
    then show ?thesis using tx inv others pend by simp
  qed
qed

lemma schedule_invariant:
  assumes "schedule steps s = Some (Return s')"
    and "single_producer t steps"
    and "tx_ring (device s) = Ref tx" and "ring_wf tx" and "ring_invariant tx"
    and "rx_ring (device s) = Ref rx" and "ring_wf rx"
    and "\<forall>t'. t' \<noteq> t \<longrightarrow> claimed s t' = None"
    and "\<forall>idx len. claimed s t = Some (idx, len) \<longrightarrow>
           idx = head tx \<and> unat (count tx) < unat (size_f tx)"
  shows "\<exists>tx' rx'. tx_ring (device s') = Ref tx' \<and> ring_wf tx' \<and> ring_invariant tx'
           \<and> rx_ring (device s') = Ref rx' \<and> ring_wf rx'
           \<and> tail rx' = tail rx \<and> count rx' = count rx"
  using assms
proof (induction steps arbitrary: s tx rx)
  case Nil
  then show ?case by simp
next
  case (Cons x xs)
  from Cons.prems(1) obtain s1 where a: "apply_step x s = Some (Return s1)"
    and b: "schedule xs s1 = Some (Return s')"
    by (auto split: option.splits exec.splits)
  from Cons.prems(2) have p: "producer x = None \<or> producer x = Some t"
    and sp: "single_producer t xs"
    by (simp_all add: single_producer_def)
  have range: "\<forall>t' idx len. claimed s t' = Some (idx, len) \<longrightarrow> unat idx < unat (size_f tx)"
  proof (intro allI impI)
    fix t' idx len
    assume c: "claimed s t' = Some (idx, len)"
    with Cons.prems(8) have "t' = t" by force
    with c Cons.prems(9) have "idx = head tx" by blast
    with Cons.prems(4) show "unat idx < unat (size_f tx)" by (simp add: ring_wf_def)
  qed
  from apply_step_wf [OF a Cons.prems(3,4,6,7) range]
  obtain tx1 rx1 where w: "tx_ring (device s1) = Ref tx1" "ring_wf tx1"
      "rx_ring (device s1) = Ref rx1" "ring_wf rx1" "tail rx1 = tail rx" "count rx1 = count rx"
    by blast
  from apply_step_invariant [OF a p Cons.prems(3,4,5,6,8,9)] w(1)
  have i: "ring_invariant tx1" "\<forall>t'. t' \<noteq> t \<longrightarrow> claimed s1 t' = None"
      "\<forall>idx len. claimed s1 t = Some (idx, len) \<longrightarrow>
           idx = head tx1 \<and> unat (count tx1) < unat (size_f tx1)"
    by auto
  from Cons.IH [OF b sp w(1,2) i(1) w(3,4) i(2,3)] w(5,6) show ?case by auto
qed

lemma hardware_owned_update:
  assumes "hardware_owned ring" and "owner d = Hardware" and "desc ring' = (desc ring)[i := d]"
  shows "hardware_owned ring'"
proof -
  have "set ((desc ring)[i := d]) \<subseteq> insert d (set (desc ring))"
    by (rule set_update_subset_insert)
  with assms show ?thesis by (auto simp: hardware_owned_def list_all_iff)
qed

lemma hardware_owned_device_completes:
  "hardware_owned (device_completes i ring) = hardware_owned ring"
proof (cases "i < length (desc ring)")
  case False
  then show ?thesis by (simp add: hardware_owned_def device_completes_def list_update_beyond)
next
  case True
  have "map owner ((desc ring)[i := (desc ring ! i)
              \<lparr>status := status (desc ring ! i) OR DESC_STATUS_DONE\<rparr>]) = map owner (desc ring)"
    using True by (simp add: map_update owner_def list_update_same_conv)
  then have "list_all (\<lambda>w. w = Hardware) (map owner (desc (device_completes i ring)))
             = list_all (\<lambda>w. w = Hardware) (map owner (desc ring))"
    by (simp add: device_completes_def)
  then show ?thesis by (simp add: hardware_owned_def list_all_iff)
qed

lemma apply_step_owner:
  assumes st: "apply_step x s = Some (Return s')"
    and tx: "tx_ring (device s) = Ref tx" and rx: "rx_ring (device s) = Ref rx"
    and otx: "hardware_owned tx" and orx: "hardware_owned rx"
  shows "\<exists>tx' rx'. tx_ring (device s') = Ref tx' \<and> rx_ring (device s') = Ref rx'
           \<and> hardware_owned tx' \<and> hardware_owned rx'
           \<and> length (desc tx') = length (desc tx) \<and> length (desc rx') = length (desc rx)"
proof (cases x)
  case (Claim t data len)
  show ?thesis
  proof (cases "claimed s t")
    case (Some c)
    with Claim st have "s' = s" by simp
    then show ?thesis using tx rx otx orx by simp
  next
    case None
    with Claim st obtain rc ev dev' where
      c: "transmit_packet_claim (device s) data len = Return (rc, ev, dev')"
      and d: "device s' = dev'"
      by (cases "transmit_packet_claim (device s) data len")
         (auto split: sum.splits)
    from transmit_packet_claim_effect [OF c tx] obtain tx' where
      e: "rx_ring dev' = rx_ring (device s)" "tx_ring dev' = Ref tx'" "desc tx' = desc tx"
      by blast
    have "hardware_owned tx'" using otx e(3) by (simp add: hardware_owned_def)
    then show ?thesis using d e rx orx by simp
  qed
next
  case (Publish t)
  show ?thesis
  proof (cases "claimed s t")
    case None
    with Publish st have "s' = s" by simp
    then show ?thesis using tx rx otx orx by simp
  next
    case (Some c)
    obtain idx len where c: "c = (idx, len)" by (cases c)
    from Publish Some c st obtain ev dev' where
      p: "transmit_packet_publish (device s) idx len = Return (ev, dev')"
      and d: "device s' = dev'"
      by (auto split: exec.splits)
    let ?d = "\<lparr>buffer_addr = ucast (data_addrs tx ! unat idx),
                         length_f = ucast len, status = 0,
                         control = DESC_FLAG_OWNER_HW OR DESC_FLAG_INTR_ENABLE\<rparr>"
    from transmit_packet_publish_descriptors [OF p tx] obtain tx' where
      e: "rx_ring dev' = rx_ring (device s)" "tx_ring dev' = Ref tx'"
         "desc tx' = desc tx \<or> desc tx' = (desc tx)[unat idx := ?d]"
      by blast
    have o: "owner ?d = Hardware"
      by (simp add: owner_def DESC_FLAG_OWNER_HW_def DESC_FLAG_INTR_ENABLE_def)
    from e(3) have "hardware_owned tx' \<and> length (desc tx') = length (desc tx)"
    proof
      assume "desc tx' = desc tx"
      with otx show ?thesis by (simp add: hardware_owned_def)
    next
      assume u: "desc tx' = (desc tx)[unat idx := ?d]"
      from hardware_owned_update [OF otx o u] u show ?thesis by simp
    qed
    then show ?thesis using d e rx orx by simp
  qed
next
  case (Irq int_status)
  from Irq st obtain r ev dev' where
    i: "device_interrupt (device s) int_status = Some (Return (r, ev, dev'))"
    and d: "device s' = dev'"
    by (auto split: exec.splits option.splits)
  from device_interrupt_descriptors [OF i] tx rx
  have "map_ptr desc (tx_ring dev') = Ref (desc tx)" "map_ptr desc (rx_ring dev') = Ref (desc rx)"
    by simp_all
  then obtain tx' rx' where "tx_ring dev' = Ref tx'" "desc tx' = desc tx"
      "rx_ring dev' = Ref rx'" "desc rx' = desc rx"
    by (cases "tx_ring dev'"; cases "rx_ring dev'") auto
  then show ?thesis using d otx orx by (simp add: hardware_owned_def)
next
  case (Device_done rid i)
  have l: "length (desc (device_completes i r)) = length (desc r)" for r
    by (simp add: device_completes_def)
  show ?thesis
  proof (cases rid)
    case TX
    with Device_done st have
      "s' = s\<lparr>device := (device s)\<lparr>tx_ring := Ref (device_completes i tx)\<rparr>\<rparr>"
      using tx by simp
    then show ?thesis using rx otx orx by (simp add: hardware_owned_device_completes l)
  next
    case RX
    with Device_done st have
      "s' = s\<lparr>device := (device s)\<lparr>rx_ring := Ref (device_completes i rx)\<rparr>\<rparr>"
      using rx by simp
    then show ?thesis using tx otx orx by (simp add: hardware_owned_device_completes l)
  qed
qed

lemma schedule_owner:
  assumes "schedule steps s = Some (Return s')"
    and "tx_ring (device s) = Ref tx" and "rx_ring (device s) = Ref rx"
    and "hardware_owned tx" and "hardware_owned rx"
  shows "\<exists>tx' rx'. tx_ring (device s') = Ref tx' \<and> rx_ring (device s') = Ref rx'
           \<and> hardware_owned tx' \<and> hardware_owned rx'
           \<and> length (desc tx') = length (desc tx) \<and> length (desc rx') = length (desc rx)"
  using assms
proof (induction steps arbitrary: s tx rx)
  case Nil
  then show ?case by simp
next
  case (Cons x xs)
  from Cons.prems(1) obtain s1 where a: "apply_step x s = Some (Return s1)"
    and b: "schedule xs s1 = Some (Return s')"
    by (auto split: option.splits exec.splits)
  from apply_step_owner [OF a Cons.prems(2-5)]
  obtain tx1 rx1 where s: "tx_ring (device s1) = Ref tx1" "rx_ring (device s1) = Ref rx1"
      "hardware_owned tx1" "hardware_owned rx1"
      and l: "length (desc tx1) = length (desc tx)" "length (desc rx1) = length (desc rx)"
    by blast
  from Cons.IH [OF b s] l show ?case by auto
qed

lemma schedule_append:
  "schedule (xs @ ys) s =
     (case schedule xs s of Some (Return s1) \<Rightarrow> schedule ys s1 | r \<Rightarrow> r)"
  by (induction xs arbitrary: s) (auto split: option.splits exec.splits)

lemma schedule_prefix:
  assumes "schedule (xs @ ys) s = Some (Return s'')"
  shows "\<exists>s'. schedule xs s = Some (Return s') \<and> schedule ys s' = Some (Return s'')"
  using assms
  by (cases "schedule xs s") (auto simp: schedule_append split: exec.splits)

lemma apply_operation_as_steps:
  assumes "apply_operation x dev = Some (Return dev')"
  shows "schedule (steps_of x) (idle dev) = Some (Return (idle dev'))"
proof (cases x)
  case (Transmit data len)
  with assms obtain rc ev where t: "transmit_packet dev data len = Return (rc, ev, dev')"
    by (auto split: exec.splits)
  then show ?thesis
    unfolding Transmit
    by (auto simp: transmit_packet_phases idle_def split: exec.splits sum.splits)
next
  case (Interrupt int_status)
  with assms show ?thesis by (auto simp: idle_def split: exec.splits option.splits)
next
  case (Completion rid i)
  with assms show ?thesis by (cases rid) (auto simp: idle_def)
qed

lemma single_producer_steps_of: "single_producer 0 (concat (map steps_of ops))"
proof -
  have "producer y = None \<or> producer y = Some 0" if "y \<in> set (steps_of x)" for x y
    using that by (cases x) auto
  then show ?thesis by (auto simp: single_producer_def list_all_iff)
qed

lemma run_as_schedule:
  assumes "run ops dev = Some (Return dev')"
  shows "schedule (concat (map steps_of ops)) (idle dev) = Some (Return (idle dev'))"
  using assms
proof (induction ops arbitrary: dev)
  case Nil
  then show ?case by simp
next
  case (Cons x xs)
  from Cons.prems obtain dev1 where a: "apply_operation x dev = Some (Return dev1)"
    and b: "run xs dev1 = Some (Return dev')"
    by (auto split: option.splits exec.splits)
  from apply_operation_as_steps [OF a] Cons.IH [OF b] show ?case
    by (simp add: schedule_append)
qed

section \<open>Teardown\<close>

lemma free_buffers_loop_events:
  assumes "free_buffers_loop buffers n i ev = Return ev'"
  shows "\<exists>frees. ev' = ev @ frees \<and> (\<forall>e\<in>set frees. is_release e)"
  using assms
proof (induction buffers n i ev rule: free_buffers_loop.induct)
  case (1 buffers n i ev)
  show ?case
  proof (cases "i < n")
    case False
    with "1.prems" have "ev' = ev" by (simp add: free_buffers_loop.simps [of buffers n i])
    then show ?thesis by simp
  next
    case True
    with "1.prems" have inb: "i < length buffers"
      by (auto simp: free_buffers_loop.simps [of buffers n i] split: if_splits)
    let ?ev1 = "case buffers ! i of None \<Rightarrow> ev | Some _ \<Rightarrow> ev @ [Free (Data_buffer i)]"
    from True inb "1.prems" have "free_buffers_loop buffers n (Suc i) ?ev1 = Return ev'"
      by (simp add: free_buffers_loop.simps [of buffers n i])
    from "1.IH" [OF True inb this] obtain frees where
      f: "ev' = ?ev1 @ frees" "\<forall>e\<in>set frees. is_release e" by blast
    show ?thesis
    proof (cases "buffers ! i")
      case None
      with f show ?thesis by auto
    next
      case (Some b)
      with f have "ev' = ev @ (Free (Data_buffer i) # frees)" by simp
      moreover have "\<forall>e\<in>set (Free (Data_buffer i) # frees). is_release e"
        using f(2) by simp
      ultimately show ?thesis by blast
    qed
  qed
qed

lemma free_ring_buffer_events:
  assumes "free_ring_buffer p = Return (ev, p')"
  shows "\<forall>e\<in>set ev. is_release e"
proof (cases p)
  case Null
  with assms show ?thesis by (simp add: free_ring_buffer_def)
next
  case Freed
  with assms show ?thesis by (simp add: free_ring_buffer_def)
next
  case (Ref ring)
  show ?thesis
  proof (cases "initialized ring")
    case False
    with Ref assms show ?thesis by (simp add: free_ring_buffer_def)
  next
    case True
    with Ref assms obtain ev1 where
      l: "free_buffers_loop (data_buffers ring) (unat (size_f ring)) 0 [] = Return ev1"
      and e: "ev = ev1 @ [Free Data_addrs, Free Data_buffers, Free Desc_ring]"
      by (auto simp: free_ring_buffer_def split: exec.splits)
    from free_buffers_loop_events [OF l] have "\<forall>e\<in>set ev1. is_release e" by auto
    with e show ?thesis by auto
  qed
qed

lemma cleanup_ring_events:
  assumes "cleanup_ring rid p = Return (ev, p')"
  shows "\<forall>e\<in>set ev. is_release e"
proof (cases "p = Null")
  case True
  with assms show ?thesis by (simp add: cleanup_ring_def)
next
  case False
  with assms obtain ev1 q where f: "free_ring_buffer p = Return (ev1, q)"
    and e: "ev = ev1 @ [Kfree_ring rid]"
    by (auto simp: cleanup_ring_def split: exec.splits)
  from free_ring_buffer_events [OF f] e show ?thesis by auto
qed

lemma free_buffers_loop_returns:
  assumes "n \<le> length buffers"
  shows "\<exists>ev'. free_buffers_loop buffers n i ev = Return ev'"
  using assms
proof (induction buffers n i ev rule: free_buffers_loop.induct)
  case (1 buffers n i ev)
  show ?case
  proof (cases "i < n")
    case False
    then show ?thesis by (simp add: free_buffers_loop.simps [of buffers n i])
  next
    case True
    with "1.prems" have inb: "i < length buffers" by simp
    from "1.IH" [OF True inb "1.prems"] True inb show ?thesis
      by (simp add: free_buffers_loop.simps [of buffers n i])
  qed
qed

lemma cleanup_ring_returns:
  assumes "p = Null \<or> (\<exists>ring. p = Ref ring \<and> unat (size_f ring) \<le> length (data_buffers ring))"
  shows "\<exists>ev p'. cleanup_ring rid p = Return (ev, p')"
proof (cases "p = Null")
  case True
  then show ?thesis by (simp add: cleanup_ring_def)
next
  case False
  with assms obtain ring where r: "p = Ref ring"
      "unat (size_f ring) \<le> length (data_buffers ring)" by blast
  from free_buffers_loop_returns [OF r(2), of 0 "[]"] obtain ev' where
    "free_buffers_loop (data_buffers ring) (unat (size_f ring)) 0 [] = Return ev'" by blast
  with r(1) show ?thesis
    by (simp add: cleanup_ring_def free_ring_buffer_def)
qed

lemma cleanup_dma_device_returns:
  assumes "tx_ring dev = Null
           \<or> (\<exists>ring. tx_ring dev = Ref ring \<and> unat (size_f ring) \<le> length (data_buffers ring))"
    and "rx_ring dev = Null
           \<or> (\<exists>ring. rx_ring dev = Ref ring \<and> unat (size_f ring) \<le> length (data_buffers ring))"
  shows "\<exists>ev p'. cleanup_dma_device (Ref dev) = Return (ev, p')"
proof -
  from cleanup_ring_returns [OF assms(1), of TX] obtain ev_tx tx' where
    t: "cleanup_ring TX (tx_ring dev) = Return (ev_tx, tx')" by blast
  from cleanup_ring_returns [OF assms(2), of RX] obtain ev_rx rx' where
    x: "cleanup_ring RX (rx_ring dev) = Return (ev_rx, rx')" by blast
  show ?thesis
    by (cases "started dev") (simp_all add: cleanup_dma_device_def Let_def t x)
qed

section \<open>Evaluation on the concrete states\<close>

lemma fresh_ring_eq:
  "fresh_ring =
     \<lparr>desc = map (\<lambda>j. buffer_descriptor (0x100000 + 0x800 * of_nat j)) [0..<RING_SIZE],
      dma_addr = 0x10000,
      data_buffers = replicate RING_SIZE (Some (replicate MAX_FRAME_SIZE 0)),
      data_addrs = map (\<lambda>j. 0x100000 + 0x800 * of_nat j) [0..<RING_SIZE],
      size_f = of_nat RING_SIZE, head = 0, tail = 0, count = 0, initialized = True,
      total_desc = of_nat RING_SIZE, overflow_count = 0, underrun_count = 0\<rparr>"
  unfolding fresh_ring_def
  by (subst alloc_ring_buffer_success) (simp_all add: plentiful_def kzalloc_ring_def)

lemma fresh_ring_alloc:
  "alloc_ring_buffer plentiful kzalloc_ring
     = (Inr (), fst (snd (alloc_ring_buffer plentiful kzalloc_ring)), fresh_ring)"
proof -
  have "\<exists>ev ring'. alloc_ring_buffer plentiful kzalloc_ring = (Inr (), ev, ring')"
    by (simp add: alloc_ring_buffer_succeeds_iff plentiful_def)
  then obtain ev ring' where "alloc_ring_buffer plentiful kzalloc_ring = (Inr (), ev, ring')"
    by blast
  then show ?thesis by (simp add: fresh_ring_def)
qed

lemma fresh_ring_fields:
  "size_f fresh_ring = 256" "head fresh_ring = 0" "tail fresh_ring = 0" "count fresh_ring = 0"
  "length (desc fresh_ring) = 256" "overflow_count fresh_ring = 0"
  "underrun_count fresh_ring = 0" "initialized fresh_ring"
  by (simp_all add: fresh_ring_eq RING_SIZE_def)

lemma fresh_device_fields:
  "tx_ring fresh_device = Ref fresh_ring" "rx_ring fresh_device = Ref fresh_ring"
  "started fresh_device"
  by (simp_all add: fresh_device_def)

lemma fresh_ring_wf: "ring_wf fresh_ring"
  by (simp add: fresh_ring_eq ring_wf_def RING_SIZE_def)

lemma fresh_ring_invariant: "ring_invariant fresh_ring"
  by (simp add: fresh_ring_eq ring_invariant_def)

lemma fresh_ring_buffers_ok: "buffers_ok fresh_ring"
  by (simp add: fresh_ring_eq buffers_ok_def RING_SIZE_def list_all_iff)

lemma fresh_ring_slot0:
  "data_buffers fresh_ring ! 0 = Some (replicate MAX_FRAME_SIZE 0)"
  "data_addrs fresh_ring ! 0 = 0x100000"
  "desc fresh_ring ! 0 = buffer_descriptor 0x100000"
  by (simp_all add: fresh_ring_eq RING_SIZE_def)

lemma saturated_ring_facts:
  "ring_wf saturated_ring" "all_done saturated_ring"
  "length (desc saturated_ring) = unat (size_f saturated_ring)"
  by (simp_all add: saturated_ring_def fresh_ring_eq ring_wf_def RING_SIZE_def all_done_def
        list_all_iff DESC_STATUS_DONE_def)

lemma capacity4_ring_ok: "ring_wf capacity4_ring" "buffers_ok capacity4_ring"
    "ring_invariant capacity4_ring"
  by (simp_all add: capacity4_ring_def ring_wf_def buffers_ok_def ring_invariant_def
        list_all_iff)

lemma wrapped_ring_ready: "reclaim_ready wrapped_ring = [3, 0]"
  by (simp add: reclaim_ready_def pending_slots_def descriptor_done_def wrapped_ring_def
      capacity4_ring_def DESC_STATUS_DONE_def upt_rec)

lemma interrupt_idle_fresh:
  "device_interrupt fresh_device INT_STATUS_TX =
     Some (Return (IRQ_HANDLED, [Readl INT_STATUS, Writel INT_STATUS_TX INT_STATUS],
                   fresh_device\<lparr>interrupts := 1\<rparr>))"
proof -
  have c: "count fresh_ring = 0" by (simp add: fresh_ring_eq)
  have "tx_completion_loop fresh_ring False = Return (fresh_ring, False)"
    by (simp add: tx_completion_loop.simps [of fresh_ring] c)
  then show ?thesis
    by (simp add: device_interrupt_def handle_tx_completion_def handle_rx_completion_def
          fresh_device_def INT_STATUS_TX_def INT_STATUS_RX_def Let_def)
qed

lemma publish_fresh:
  "update_tx_descriptor fresh_device 0 0x100000 60 =
     Return ([Desc_store 0 Buffer_addr 0x100000,
              Desc_store 0 Length 60,
              Desc_store 0 Status 0,
              Desc_store 0 Control 0xC0000000,
              Wmb,
              Writel 0 TX_RING_PTR,
              Head_store 1,
              Count_store 1,
              Wake_up Tx_wait],
             fresh_device\<lparr>tx_ring := Ref (fresh_ring\<lparr>
               desc := (desc fresh_ring)[0 :=
                 \<lparr>buffer_addr = 0x100000, length_f = 60, status = 0, control = 0xC0000000\<rparr>],
               head := 1, count := 1\<rparr>)\<rparr>)"
proof -
  have a: "unat (0 :: u32) < unat (size_f fresh_ring)"
    and b: "unat (size_f fresh_ring) \<le> length (desc fresh_ring)"
    by (simp_all add: fresh_ring_fields)
  have n: "next_index 0 256 = 1"
    by (simp add: next_index_def)
  from update_tx_descriptor_publish [where addr = "0x100000" and len = 60,
         OF fresh_device_fields(1) a b]
  show ?thesis
    by (simp add: n fresh_ring_fields DESC_FLAG_OWNER_HW_def DESC_FLAG_INTR_ENABLE_def)
qed

lemma transmit_fresh:
  "transmit_packet fresh_device [1, 2, 3] 3 =
     Return (Inr (),
             [Data_copy 0 3,
              Desc_store 0 Buffer_addr 0x100000,
              Desc_store 0 Length 3,
              Desc_store 0 Status 0,
              Desc_store 0 Control 0xC0000000,
              Wmb,
              Writel 0 TX_RING_PTR,
              Head_store 1,
              Count_store 1,
              Wake_up Tx_wait],
             fresh_device\<lparr>tx_ring := Ref in_flight_ring, tx_packets := 1\<rparr>)"
proof -
  have v: "unat (3 :: size_t) \<le> MAX_FRAME_SIZE" "unat (3 :: size_t) \<le> length [1, 2, 3 :: u8]"
    by (simp_all add: MAX_FRAME_SIZE_def)
  have c: "unat (count fresh_ring) < unat (size_f fresh_ring)"
    by (simp add: fresh_ring_fields)
  have n: "next_index 0 256 = 1" by (simp add: next_index_def)
  have p: "tx_packets fresh_device = 0" by (simp add: fresh_device_def)
  from transmit_packet_success [OF fresh_device_fields(3) v fresh_device_fields(1)
         fresh_ring_wf fresh_ring_buffers_ok c]
  show ?thesis
    by (auto simp: fresh_ring_fields fresh_ring_slot0 n p in_flight_ring_def
          DESC_FLAG_OWNER_HW_def DESC_FLAG_INTR_ENABLE_def)
qed

lemma in_flight_ring_fields:
  "size_f in_flight_ring = 256" "head in_flight_ring = 1" "tail in_flight_ring = 0"
  "count in_flight_ring = 1" "length (desc in_flight_ring) = 256"
  "desc in_flight_ring ! 0
     = \<lparr>buffer_addr = 0x100000, length_f = 3, status = 0, control = 0xC0000000\<rparr>"
  by (simp_all add: in_flight_ring_def fresh_ring_fields)

lemma reclaim_in_flight:
  "tx_completion_loop (device_completes 0 in_flight_ring) False = Return (reclaimed_ring, True)"
proof -
  let ?r = "device_completes 0 in_flight_ring"
  have f: "count ?r = 1" "tail ?r = 0" "size_f ?r = 256" "length (desc ?r) = 256"
      "status (desc ?r ! 0) = 1"
    by (simp_all add: device_completes_def in_flight_ring_fields DESC_STATUS_DONE_def)
  have n: "next_index 0 256 = 1" by (simp add: next_index_def)
  have s1: "tx_completion_loop ?r False = tx_completion_loop (?r\<lparr>tail := 1, count := 0\<rparr>) True"
    by (subst tx_completion_loop.simps) (simp add: f n DESC_STATUS_DONE_def)
  have s2: "tx_completion_loop (?r\<lparr>tail := 1, count := 0\<rparr>) True
              = Return (?r\<lparr>tail := 1, count := 0\<rparr>, True)"
    by (subst tx_completion_loop.simps) simp
  show ?thesis by (simp add: s1 s2 reclaimed_ring_def)
qed

lemma run_transmit_complete_reclaim:
  "run [Transmit [1, 2, 3] 3, Completion TX 0, Interrupt INT_STATUS_TX] fresh_device
     = Some (Return (fresh_device\<lparr>tx_ring := Ref reclaimed_ring, tx_packets := 1,
                                    interrupts := 1\<rparr>))"
proof -
  have i: "interrupts fresh_device = 0" by (simp add: fresh_device_def)
  show ?thesis
    by (simp add: transmit_fresh device_interrupt_def handle_tx_completion_def
          handle_rx_completion_def reclaim_in_flight INT_STATUS_TX_def INT_STATUS_RX_def
          Let_def i)
qed

lemma reclaimed_ring_fields:
  "tail reclaimed_ring = 1" "head reclaimed_ring = 1" "count reclaimed_ring = 0"
  "size_f reclaimed_ring = 256"
  "desc reclaimed_ring ! 0
     = \<lparr>buffer_addr = 0x100000, length_f = 3, status = 1, control = 0xC0000000\<rparr>"
  by (simp_all add: reclaimed_ring_def device_completes_def in_flight_ring_fields
        DESC_STATUS_DONE_def)

lemma receive_one:
  "rx_completion_loop (device_completes 0 fresh_ring) 0 False
     = Some (Return (received_ring, 1, True))"
proof -
  let ?r = "device_completes 0 fresh_ring"
  have f: "head ?r = 0" "size_f ?r = 256" "length (desc ?r) = 256"
      "status (desc ?r ! 0) = 1" "status (desc ?r ! Suc 0) = 0"
    by (simp_all add: device_completes_def fresh_ring_fields fresh_ring_slot0
          buffer_descriptor_def DESC_STATUS_DONE_def)
       (simp add: fresh_ring_eq RING_SIZE_def buffer_descriptor_def)
  have n: "next_index 0 256 = 1" by (simp add: next_index_def)
  have s1: "rx_completion_loop ?r 0 False = rx_completion_loop (?r\<lparr>head := 1\<rparr>) 1 True"
    by (subst rx_completion_loop.simps) (simp add: f n DESC_STATUS_DONE_def)
  have s2: "rx_completion_loop (?r\<lparr>head := 1\<rparr>) 1 True
              = Some (Return (?r\<lparr>head := 1\<rparr>, 1, True))"
    by (subst rx_completion_loop.simps) (simp add: f DESC_STATUS_DONE_def)
  show ?thesis by (simp add: s1 s2 received_ring_def)
qed

lemma run_receive_one:
  "run [Completion RX 0, Interrupt INT_STATUS_RX] fresh_device
     = Some (Return (fresh_device\<lparr>rx_ring := Ref received_ring, rx_packets := 1,
                                    interrupts := 1\<rparr>))"
proof -
  have i: "interrupts fresh_device = 0" "rx_packets fresh_device = 0"
    by (simp_all add: fresh_device_def)
  show ?thesis
    by (simp add: device_interrupt_def handle_tx_completion_def handle_rx_completion_def
          receive_one INT_STATUS_TX_def INT_STATUS_RX_def Let_def i fresh_device_fields)
qed

lemma free_capacity4_buffers:
  "free_buffers_loop (data_buffers capacity4_ring) (unat (size_f capacity4_ring)) 0 [] =
     Return [Free (Data_buffer 0), Free (Data_buffer 1), Free (Data_buffer 2),
             Free (Data_buffer 3)]"
proof -
  have b: "data_buffers capacity4_ring =
             [Some (replicate MAX_FRAME_SIZE 0), Some (replicate MAX_FRAME_SIZE 0),
              Some (replicate MAX_FRAME_SIZE 0), Some (replicate MAX_FRAME_SIZE 0)]"
    by (simp add: capacity4_ring_def numeral_eq_Suc)
  have n: "unat (size_f capacity4_ring) = Suc (Suc (Suc (Suc 0)))"
    by (simp add: capacity4_ring_def)
  show ?thesis
    unfolding b n
    apply (subst free_buffers_loop.simps, simp)
    apply (subst free_buffers_loop.simps, simp)
    apply (subst free_buffers_loop.simps, simp)
    apply (subst free_buffers_loop.simps, simp)
    apply (subst free_buffers_loop.simps, simp add: numeral_eq_Suc)
    done
qed

lemma cleanup_capacity4:
  "cleanup_dma_device (Ref capacity4_device) =
     Return ([Writel 0 MAC_CONTROL, Writel 0 INT_ENABLE, Free_irq,
              Free (Data_buffer 0), Free (Data_buffer 1), Free (Data_buffer 2),
              Free (Data_buffer 3), Free Data_addrs, Free Data_buffers, Free Desc_ring,
              Kfree_ring TX,
              Free (Data_buffer 0), Free (Data_buffer 1), Free (Data_buffer 2),
              Free (Data_buffer 3), Free Data_addrs, Free Data_buffers, Free Desc_ring,
              Kfree_ring RX],
             Ref (capacity4_device\<lparr>started := False, int_enabled := False,
                                    tx_ring := Freed, rx_ring := Freed\<rparr>))"
proof -
  have i: "initialized capacity4_ring" by (simp add: capacity4_ring_def)
  have f: "free_ring_buffer (Ref capacity4_ring) =
             Return ([Free (Data_buffer 0), Free (Data_buffer 1), Free (Data_buffer 2),
                      Free (Data_buffer 3), Free Data_addrs, Free Data_buffers, Free Desc_ring],
                     Ref (capacity4_ring\<lparr>data_addrs := [], data_buffers := [], desc := [],
                                           initialized := False\<rparr>))"
    by (simp add: free_ring_buffer_def i free_capacity4_buffers)
  show ?thesis
    by (simp add: cleanup_dma_device_def cleanup_ring_def f capacity4_device_def Let_def)
qed

lemma interleaved_transmit:
  "schedule [Claim 0 [1, 2, 3] 3, Irq INT_STATUS_TX, Publish 0, Device_done TX 0,
             Irq INT_STATUS_TX] (idle fresh_device)
     = Some (Return (idle (fresh_device\<lparr>tx_ring := Ref reclaimed_ring, tx_packets := 1,
                                          interrupts := 2\<rparr>)))"
proof -
  have n: "next_index 0 256 = 1" by (simp add: next_index_def)
  have p: "tx_packets fresh_device = 0" "interrupts fresh_device = 0"
    by (simp_all add: fresh_device_def)
  have l: "length (data_buffers fresh_ring) = 256" "length (data_addrs fresh_ring) = 256"
    by (simp_all add: fresh_ring_eq RING_SIZE_def)
  let ?claimed = "fresh_ring\<lparr>data_buffers := (data_buffers fresh_ring)[0 :=
          Some ([1, 2, 3] @ replicate (MAX_FRAME_SIZE - 3) 0)]\<rparr>"
  have i1: "tx_completion_loop ?claimed False = Return (?claimed, False)"
    by (rule tx_completion_loop_idle) (simp add: fresh_ring_fields)
  have f: "?claimed\<lparr>desc := (desc fresh_ring)[0 :=
          \<lparr>buffer_addr = 0x100000, length_f = 3, status = 0, control = 0xC0000000\<rparr>],
       head := 1, count := 1\<rparr> = in_flight_ring"
    by (simp add: in_flight_ring_def)
  show ?thesis
    by (simp add: idle_def transmit_packet_claim_def transmit_packet_publish_def
          update_tx_descriptor_def memcpy_def Let_def fresh_device_fields fresh_ring_fields
          fresh_ring_slot0 n p l MAX_FRAME_SIZE_def
          DESC_FLAG_OWNER_HW_def DESC_FLAG_INTR_ENABLE_def
          device_interrupt_def handle_tx_completion_def handle_rx_completion_def
          INT_STATUS_TX_def INT_STATUS_RX_def i1 [unfolded MAX_FRAME_SIZE_def, simplified]
          f [unfolded MAX_FRAME_SIZE_def, simplified]
          reclaim_in_flight)
qed

lemma race_fresh:
  "schedule [Claim 1 [1, 2, 3] 3, Claim 2 [1, 2, 3] 3, Publish 1, Publish 2] (idle fresh_device)
     = Some (Return (idle (fresh_device\<lparr>tx_ring := Ref raced_ring, tx_packets := 2\<rparr>)))"
proof -
  have n: "next_index 0 256 = 1" by (simp add: next_index_def)
  have p: "tx_packets fresh_device = 0" by (simp add: fresh_device_def)
  have l: "length (data_buffers fresh_ring) = 256" "length (data_addrs fresh_ring) = 256"
    by (simp_all add: fresh_ring_eq RING_SIZE_def)
  show ?thesis
    by (simp add: idle_def transmit_packet_claim_def transmit_packet_publish_def
          update_tx_descriptor_def memcpy_def Let_def fresh_device_fields fresh_ring_fields
          fresh_ring_slot0 n p l raced_ring_def in_flight_ring_def MAX_FRAME_SIZE_def
          DESC_FLAG_OWNER_HW_def DESC_FLAG_INTR_ENABLE_def fun_upd_twist)
qed

lemma raced_ring_fields:
  "head raced_ring = 1" "tail raced_ring = 0" "count raced_ring = 2" "size_f raced_ring = 256"
  "ring_wf raced_ring" "\<not> ring_invariant raced_ring"
  by (simp_all add: raced_ring_def in_flight_ring_fields ring_wf_def ring_invariant_def)

lemma four_transmits:
  "run [Transmit [1, 2, 3] 3, Transmit [1, 2, 3] 3, Transmit [1, 2, 3] 3, Transmit [1, 2, 3] 3]
     capacity4_device
     = Some (Return (capacity4_device\<lparr>tx_ring := Ref full_ring, tx_packets := 4\<rparr>))"
proof -
  have n: "next_index 0 4 = 1" "next_index 1 4 = 2" "next_index 2 4 = 3" "next_index 3 4 = 0"
    by (simp_all add: next_index_def)
  have r: "replicate 4 x = [x, x, x, x]" for x :: 'a
    by (simp add: numeral_eq_Suc)
  have c: "\<not> (4 :: size_t) \<le> 1" by (simp add: word_le_nat_alt)
  show ?thesis
    by (simp add: transmit_packet_def
          update_tx_descriptor_def memcpy_def Let_def capacity4_device_def capacity4_ring_def
          full_ring_def n r c MAX_FRAME_SIZE_def
          DESC_FLAG_OWNER_HW_def DESC_FLAG_INTR_ENABLE_def)
qed

lemma fifth_transmit:
  "transmit_packet (capacity4_device\<lparr>tx_ring := Ref full_ring, tx_packets := 4\<rparr>) [1, 2, 3] 3
     = Return (Inl ENOBUFS, [],
               capacity4_device\<lparr>tx_ring := Ref (full_ring\<lparr>overflow_count := 1\<rparr>),
                                 tx_packets := 4\<rparr>)"
  by (simp add: transmit_packet_def capacity4_device_def capacity4_ring_def
        full_ring_def MAX_FRAME_SIZE_def)

lemma fifth_claim:
  "apply_step (Claim 0 [1, 2, 3] 3)
     (idle (capacity4_device\<lparr>tx_ring := Ref full_ring, tx_packets := 4\<rparr>))
     = Some (Return (idle (capacity4_device\<lparr>tx_ring := Ref (full_ring\<lparr>overflow_count := 1\<rparr>),
                                             tx_packets := 4\<rparr>)))"
  by (simp add: idle_def transmit_packet_claim_def capacity4_device_def capacity4_ring_def
        full_ring_def MAX_FRAME_SIZE_def)

lemma full_ring_fields:
  "count full_ring = 4" "size_f full_ring = 4" "overflow_count full_ring = 0"
  by (simp_all add: full_ring_def capacity4_ring_def)

section \<open>The properties claimed of the driver\<close>

subsection \<open>The bookkeeping invariant\<close>

text \<open>
  Claim C1, as the code has it. A ring that \<^verbatim>\<open>alloc_ring_buffer\<close> has built
  satisfies the bookkeeping invariant (\<open>count \<le> size\<close> and
  \<open>tail + count \<equiv> head (mod size)\<close>) with head, tail and count zero. Take a
  schedule of claims, publishes, interrupts and completions by the device that
  returns, with a single producer; interrupts and completions may fall between
  a claim and its publish. Every initial part of it returns, and the transmit
  ring satisfies the invariant after it: the invariant holds after every step.
  With any number of producers the transmit ring stays well formed (head and
  tail below the size) after every step, and no more: two callers that claim
  before either publishes both publish the slot at head, so that count grows by
  two and head by one. The receive completion loop only advances the head of
  the receive ring and leaves its tail and count as they were; the receive ring
  stays well formed, but the congruence between tail, count and head is not
  kept there. A run of whole calls of \<^verbatim>\<open>transmit_packet\<close>, interrupts and
  completions is a schedule with a single producer, and the same holds along
  it.
\<close>

theorem ring_invariant_along_runs:
  "(alloc_ring_buffer al ring0 = (Inr (), ev, fresh) \<longrightarrow>
      ring_wf fresh \<and> ring_invariant fresh
      \<and> head fresh = 0 \<and> tail fresh = 0 \<and> count fresh = 0)
   \<and> (single_producer t (steps @ rest)
       \<and> tx_ring dev = Ref tx \<and> ring_wf tx \<and> ring_invariant tx
       \<and> rx_ring dev = Ref rx \<and> ring_wf rx
       \<and> schedule (steps @ rest) (idle dev) = Some (Return s'') \<longrightarrow>
      (\<exists>s' tx' rx'. schedule steps (idle dev) = Some (Return s')
         \<and> tx_ring (device s') = Ref tx' \<and> ring_wf tx' \<and> ring_invariant tx'
         \<and> rx_ring (device s') = Ref rx' \<and> ring_wf rx'
         \<and> tail rx' = tail rx \<and> count rx' = count rx))
   \<and> (tx_ring dev = Ref tx \<and> ring_wf tx \<and> rx_ring dev = Ref rx \<and> ring_wf rx
       \<and> schedule (steps @ rest) (idle dev) = Some (Return s'') \<longrightarrow>
      (\<exists>s' tx' rx'. schedule steps (idle dev) = Some (Return s')
         \<and> tx_ring (device s') = Ref tx' \<and> ring_wf tx' \<and> size_f tx' = size_f tx
         \<and> rx_ring (device s') = Ref rx' \<and> ring_wf rx'
         \<and> tail rx' = tail rx \<and> count rx' = count rx))
   \<and> (tx_ring dev = Ref tx \<and> ring_wf tx \<and> ring_invariant tx
       \<and> rx_ring dev = Ref rx \<and> ring_wf rx
       \<and> run ops dev = Some (Return dev') \<longrightarrow>
      (\<exists>tx' rx'. tx_ring dev' = Ref tx' \<and> ring_wf tx' \<and> ring_invariant tx'
         \<and> rx_ring dev' = Ref rx' \<and> ring_wf rx'
         \<and> tail rx' = tail rx \<and> count rx' = count rx))
   \<and> (run ops dev = Some (Return dev') \<longrightarrow>
        schedule (concat (map steps_of ops)) (idle dev) = Some (Return (idle dev')))
   \<and> single_producer 0 (concat (map steps_of ops))"
proof -
  have c1: "alloc_ring_buffer al ring0 = (Inr (), ev, fresh) \<longrightarrow>
      ring_wf fresh \<and> ring_invariant fresh
      \<and> head fresh = 0 \<and> tail fresh = 0 \<and> count fresh = 0"
    using alloc_ring_buffer_invariant [of al ring0 ev fresh] by blast
  have c2: "single_producer t (steps @ rest)
       \<and> tx_ring dev = Ref tx \<and> ring_wf tx \<and> ring_invariant tx
       \<and> rx_ring dev = Ref rx \<and> ring_wf rx
       \<and> schedule (steps @ rest) (idle dev) = Some (Return s'') \<longrightarrow>
      (\<exists>s' tx' rx'. schedule steps (idle dev) = Some (Return s')
         \<and> tx_ring (device s') = Ref tx' \<and> ring_wf tx' \<and> ring_invariant tx'
         \<and> rx_ring (device s') = Ref rx' \<and> ring_wf rx'
         \<and> tail rx' = tail rx \<and> count rx' = count rx)"
  proof
    assume a: "single_producer t (steps @ rest)
       \<and> tx_ring dev = Ref tx \<and> ring_wf tx \<and> ring_invariant tx
       \<and> rx_ring dev = Ref rx \<and> ring_wf rx
       \<and> schedule (steps @ rest) (idle dev) = Some (Return s'')"
    then have "schedule (steps @ rest) (idle dev) = Some (Return s'')" by simp
    from schedule_prefix [OF this] obtain s' where
      s': "schedule steps (idle dev) = Some (Return s')" by blast
    from a have h: "single_producer t steps"
      "tx_ring (device (idle dev)) = Ref tx" "ring_wf tx" "ring_invariant tx"
      "rx_ring (device (idle dev)) = Ref rx" "ring_wf rx"
      by (simp_all add: idle_def single_producer_def)
    have e: "\<forall>t'. t' \<noteq> t \<longrightarrow> claimed (idle dev) t' = None"
      "\<forall>idx len. claimed (idle dev) t = Some (idx, len) \<longrightarrow>
           idx = head tx \<and> unat (count tx) < unat (size_f tx)"
      by (simp_all add: idle_def)
    from schedule_invariant [OF s' h e] s'
    show "\<exists>s' tx' rx'. schedule steps (idle dev) = Some (Return s')
         \<and> tx_ring (device s') = Ref tx' \<and> ring_wf tx' \<and> ring_invariant tx'
         \<and> rx_ring (device s') = Ref rx' \<and> ring_wf rx'
         \<and> tail rx' = tail rx \<and> count rx' = count rx" by blast
  qed
  have c3: "tx_ring dev = Ref tx \<and> ring_wf tx \<and> rx_ring dev = Ref rx \<and> ring_wf rx
       \<and> schedule (steps @ rest) (idle dev) = Some (Return s'') \<longrightarrow>
      (\<exists>s' tx' rx'. schedule steps (idle dev) = Some (Return s')
         \<and> tx_ring (device s') = Ref tx' \<and> ring_wf tx' \<and> size_f tx' = size_f tx
         \<and> rx_ring (device s') = Ref rx' \<and> ring_wf rx'
         \<and> tail rx' = tail rx \<and> count rx' = count rx)"
  proof
    assume a: "tx_ring dev = Ref tx \<and> ring_wf tx \<and> rx_ring dev = Ref rx \<and> ring_wf rx
       \<and> schedule (steps @ rest) (idle dev) = Some (Return s'')"
    then have "schedule (steps @ rest) (idle dev) = Some (Return s'')" by simp
    from schedule_prefix [OF this] obtain s' where
      s': "schedule steps (idle dev) = Some (Return s')" by blast
    from a have h: "tx_ring (device (idle dev)) = Ref tx" "ring_wf tx"
      "rx_ring (device (idle dev)) = Ref rx" "ring_wf rx"
      by (simp_all add: idle_def)
    have e: "\<forall>t idx len. claimed (idle dev) t = Some (idx, len) \<longrightarrow>
               unat idx < unat (size_f tx)"
      by (simp add: idle_def)
    from schedule_wf [OF s' h e] s'
    show "\<exists>s' tx' rx'. schedule steps (idle dev) = Some (Return s')
         \<and> tx_ring (device s') = Ref tx' \<and> ring_wf tx' \<and> size_f tx' = size_f tx
         \<and> rx_ring (device s') = Ref rx' \<and> ring_wf rx'
         \<and> tail rx' = tail rx \<and> count rx' = count rx" by blast
  qed
  have c4: "tx_ring dev = Ref tx \<and> ring_wf tx \<and> ring_invariant tx
       \<and> rx_ring dev = Ref rx \<and> ring_wf rx
       \<and> run ops dev = Some (Return dev') \<longrightarrow>
      (\<exists>tx' rx'. tx_ring dev' = Ref tx' \<and> ring_wf tx' \<and> ring_invariant tx'
         \<and> rx_ring dev' = Ref rx' \<and> ring_wf rx'
         \<and> tail rx' = tail rx \<and> count rx' = count rx)"
  proof
    assume a: "tx_ring dev = Ref tx \<and> ring_wf tx \<and> ring_invariant tx
       \<and> rx_ring dev = Ref rx \<and> ring_wf rx
       \<and> run ops dev = Some (Return dev')"
    then have "run ops dev = Some (Return dev')" "tx_ring dev = Ref tx" "ring_wf tx"
      "ring_invariant tx" "rx_ring dev = Ref rx" "ring_wf rx" by simp_all
    then show "\<exists>tx' rx'. tx_ring dev' = Ref tx' \<and> ring_wf tx' \<and> ring_invariant tx'
         \<and> rx_ring dev' = Ref rx' \<and> ring_wf rx'
         \<and> tail rx' = tail rx \<and> count rx' = count rx"
      by (rule run_invariant)
  qed
  have c5: "run ops dev = Some (Return dev') \<longrightarrow>
        schedule (concat (map steps_of ops)) (idle dev) = Some (Return (idle dev'))"
    using run_as_schedule [of ops dev dev'] by blast
  have c6: "single_producer 0 (concat (map steps_of ops))"
    by (rule single_producer_steps_of)
  show ?thesis
    by (intro conjI) (rule c1 c2 c3 c4 c5 c6)+
qed

theorem ring_invariant_counterexample:
  "ring_invariant fresh_ring \<and> rx_ring fresh_device = Ref fresh_ring
   \<and> run [Completion RX 0, Interrupt INT_STATUS_RX] fresh_device
       = Some (Return (fresh_device\<lparr>rx_ring := Ref received_ring, rx_packets := 1,
                                      interrupts := 1\<rparr>))
   \<and> head received_ring = 1 \<and> tail received_ring = 0 \<and> count received_ring = 0
   \<and> size_f received_ring = 256
   \<and> \<not> ring_invariant received_ring
   \<and> ring_wf fresh_ring \<and> tx_ring fresh_device = Ref fresh_ring
   \<and> schedule [Claim 1 [1, 2, 3] 3, Claim 2 [1, 2, 3] 3, Publish 1, Publish 2]
        (idle fresh_device)
       = Some (Return (idle (fresh_device\<lparr>tx_ring := Ref raced_ring, tx_packets := 2\<rparr>)))
   \<and> head raced_ring = 1 \<and> tail raced_ring = 0 \<and> count raced_ring = 2
   \<and> size_f raced_ring = 256
   \<and> \<not> ring_invariant raced_ring"
proof -
  have a: "ring_invariant fresh_ring \<and> rx_ring fresh_device = Ref fresh_ring
   \<and> run [Completion RX 0, Interrupt INT_STATUS_RX] fresh_device
       = Some (Return (fresh_device\<lparr>rx_ring := Ref received_ring, rx_packets := 1,
                                      interrupts := 1\<rparr>))
   \<and> head received_ring = 1 \<and> tail received_ring = 0 \<and> count received_ring = 0
   \<and> size_f received_ring = 256
   \<and> \<not> ring_invariant received_ring"
    using run_receive_one fresh_ring_invariant
    by (simp add: fresh_device_fields received_ring_def device_completes_def
          fresh_ring_fields ring_invariant_def)
  from a fresh_ring_wf fresh_device_fields(1) race_fresh raced_ring_fields(1-4,6)
  show ?thesis by (intro conjI) (simp_all only: not_False_eq_True)
qed

theorem ring_invariant_along_runs_witness:
  "alloc_ring_buffer plentiful kzalloc_ring
     = (Inr (), fst (snd (alloc_ring_buffer plentiful kzalloc_ring)), fresh_ring)
   \<and> ring_wf fresh_ring \<and> ring_invariant fresh_ring
   \<and> tx_ring fresh_device = Ref fresh_ring \<and> rx_ring fresh_device = Ref fresh_ring
   \<and> single_producer 0 [Claim 0 [1, 2, 3] 3, Irq INT_STATUS_TX, Publish 0, Device_done TX 0,
                         Irq INT_STATUS_TX]
   \<and> schedule [Claim 0 [1, 2, 3] 3, Irq INT_STATUS_TX, Publish 0, Device_done TX 0,
               Irq INT_STATUS_TX] (idle fresh_device)
       = Some (Return (idle (fresh_device\<lparr>tx_ring := Ref reclaimed_ring, tx_packets := 1,
                                            interrupts := 2\<rparr>)))
   \<and> run [Transmit [1, 2, 3] 3, Completion TX 0, Interrupt INT_STATUS_TX] fresh_device
       = Some (Return (fresh_device\<lparr>tx_ring := Ref reclaimed_ring, tx_packets := 1,
                                      interrupts := 1\<rparr>))
   \<and> ring_wf reclaimed_ring \<and> ring_invariant reclaimed_ring"
proof -
  let ?steps = "[Claim 0 [1, 2, 3] 3, Irq INT_STATUS_TX, Publish 0, Device_done TX 0,
                 Irq INT_STATUS_TX]"
  let ?s = "idle (fresh_device\<lparr>tx_ring := Ref reclaimed_ring, tx_packets := 1,
                                interrupts := 2\<rparr>)"
  note t = ring_invariant_along_runs [where al = plentiful and ?ring0.0 = kzalloc_ring
      and ev = "fst (snd (alloc_ring_buffer plentiful kzalloc_ring))" and fresh = fresh_ring
      and dev = fresh_device and tx = fresh_ring and rx = fresh_ring
      and t = 0 and steps = ?steps and rest = "[]" and s'' = ?s
      and ops = "[Transmit [1, 2, 3] 3, Completion TX 0, Interrupt INT_STATUS_TX]"
      and dev' = "fresh_device\<lparr>tx_ring := Ref reclaimed_ring, tx_packets := 1,
                                interrupts := 1\<rparr>"]
  from t [THEN conjunct1, rule_format, OF fresh_ring_alloc]
  have a: "ring_wf fresh_ring" "ring_invariant fresh_ring" by simp_all
  have sp: "single_producer 0 ?steps" by (simp add: single_producer_def)
  have "single_producer 0 (?steps @ [])
       \<and> tx_ring fresh_device = Ref fresh_ring \<and> ring_wf fresh_ring \<and> ring_invariant fresh_ring
       \<and> rx_ring fresh_device = Ref fresh_ring \<and> ring_wf fresh_ring
       \<and> schedule (?steps @ []) (idle fresh_device) = Some (Return ?s)"
    using sp a fresh_device_fields interleaved_transmit by simp
  from t [THEN conjunct2, THEN conjunct1, rule_format, OF this]
  obtain s' tx' where p: "schedule ?steps (idle fresh_device) = Some (Return s')"
      "tx_ring (device s') = Ref tx'" "ring_invariant tx'"
    by blast
  from p(1) have "s' = ?s" by (simp only: interleaved_transmit option.inject exec.inject)
  with p(2,3) have b: "ring_invariant reclaimed_ring" by (simp add: idle_def)
  have "tx_ring fresh_device = Ref fresh_ring \<and> ring_wf fresh_ring \<and> ring_invariant fresh_ring
       \<and> rx_ring fresh_device = Ref fresh_ring \<and> ring_wf fresh_ring
       \<and> run [Transmit [1, 2, 3] 3, Completion TX 0, Interrupt INT_STATUS_TX] fresh_device
           = Some (Return (fresh_device\<lparr>tx_ring := Ref reclaimed_ring, tx_packets := 1,
                                          interrupts := 1\<rparr>))"
    using a fresh_device_fields run_transmit_complete_reclaim by simp
  from t [THEN conjunct2, THEN conjunct2, THEN conjunct2, THEN conjunct1, rule_format, OF this]
  have c: "ring_wf reclaimed_ring" by auto
  from fresh_ring_alloc a fresh_device_fields(1,2) sp interleaved_transmit
    run_transmit_complete_reclaim b c
  show ?thesis by (intro conjI) (simp_all only:)
qed

subsection \<open>Reclaim in submission order\<close>

text \<open>
  Claim C2. When the interrupt status has the transmit bit, the handler reclaims
  exactly the slots \<open>reclaim_ready ring\<close>: the longest run of completed
  descriptors at the front of the pending slots \<open>tail, tail + 1, ...\<close> (modulo the
  capacity, \<open>count\<close> of them). Tail has advanced by their number, count has
  dropped by their number, nothing else in the ring has changed, and the loop
  has stopped because no slot is pending or the descriptor at the new tail is
  not done. A completed slot behind a pending one is therefore not reclaimed.
\<close>

theorem tx_reclaim_fifo:
  assumes "int_status AND INT_STATUS_TX \<noteq> 0" and "tx_ring dev = Ref ring" and "ring_wf ring"
  shows "\<exists>ring'. handle_tx_completion dev int_status
                    = Return (dev\<lparr>tx_ring := Ref ring'\<rparr>, reclaim_ready ring \<noteq> [])
           \<and> ring' = ring\<lparr>tail := tail ring', count := count ring'\<rparr>
           \<and> unat (tail ring') =
               (unat (tail ring) + length (reclaim_ready ring)) mod unat (size_f ring)
           \<and> unat (count ring') = unat (count ring) - length (reclaim_ready ring)
           \<and> length (reclaim_ready ring) \<le> unat (count ring)
           \<and> (count ring' = 0 \<or> \<not> descriptor_done ring (unat (tail ring')))"
proof -
  from tx_completion_loop_reclaims [OF assms(3), of False]
  obtain ring' where r: "tx_completion_loop ring False = Return (ring', reclaim_ready ring \<noteq> [])"
      "ring' = ring\<lparr>tail := tail ring', count := count ring'\<rparr>"
      "unat (tail ring') =
         (unat (tail ring) + length (reclaim_ready ring)) mod unat (size_f ring)"
      "unat (count ring') = unat (count ring) - length (reclaim_ready ring)"
    by auto
  have h: "handle_tx_completion dev int_status
             = Return (dev\<lparr>tx_ring := Ref ring'\<rparr>, reclaim_ready ring \<noteq> [])"
    using assms(1,2) r(1) by (simp add: handle_tx_completion_def)
  have "count ring' = 0 \<or> \<not> descriptor_done ring (unat (tail ring'))"
    using reclaim_stops [OF assms(3)] r(3,4) length_reclaim_ready [of ring]
    by (auto simp: unat_eq_0)
  with h r(2,3,4) length_reclaim_ready [of ring] show ?thesis by blast
qed

theorem tx_reclaim_fifo_witness:
  "INT_STATUS_TX AND INT_STATUS_TX \<noteq> 0 \<and> ring_wf wrapped_ring
   \<and> reclaim_ready wrapped_ring = [3, 0]
   \<and> (\<exists>ring'. handle_tx_completion (capacity4_device\<lparr>tx_ring := Ref wrapped_ring\<rparr>) INT_STATUS_TX
                 = Return (capacity4_device\<lparr>tx_ring := Ref ring'\<rparr>, True)
         \<and> unat (tail ring') = 1 \<and> unat (count ring') = 2)"
proof -
  have a: "INT_STATUS_TX AND INT_STATUS_TX \<noteq> 0" by (simp add: INT_STATUS_TX_def)
  have b: "tx_ring (capacity4_device\<lparr>tx_ring := Ref wrapped_ring\<rparr>) = Ref wrapped_ring" by simp
  have c: "ring_wf wrapped_ring"
    by (simp add: ring_wf_def wrapped_ring_def capacity4_ring_def)
  have d: "unat (tail wrapped_ring) = 3" "unat (count wrapped_ring) = 4"
      "unat (size_f wrapped_ring) = 4"
    by (simp_all add: wrapped_ring_def capacity4_ring_def)
  from tx_reclaim_fifo [OF a b c] a c wrapped_ring_ready d show ?thesis
    by auto
qed

subsection \<open>The ownership bit\<close>

text \<open>
  Claim C3, as the code has it. In \<^verbatim>\<open>alloc_ring_buffer\<close>, \<^verbatim>\<open>memset\<close> clears the
  descriptor array, which leaves every control word zero, the Software value.
  The initialisation loop then sets the control word of each slot it reaches to
  \<^verbatim>\<open>DESC_FLAG_OWNER_HW\<close>: when it stops at slot \<open>k\<close>, the slots below \<open>k\<close>
  are Hardware owned and the others are still Software owned, and a ring whose
  construction succeeds has all its descriptors Hardware owned.
  \<^verbatim>\<open>update_tx_descriptor\<close> (publish) sets the control word of the published slot
  to Hardware ownership with the interrupt flag and leaves the control word of
  every other slot alone. The first phase of \<^verbatim>\<open>transmit_packet\<close> and the
  interrupt handler, whatever it reclaims, leave the descriptor arrays as they
  were. So along every schedule of claims, publishes, interrupts and
  completions, rings that are hardware owned stay hardware owned: reclaim does
  not return a slot to Software.
\<close>

theorem ownership_written_as_hardware:
  "(alloc_ring_buffer al ring0 = (Inr (), ev0, fresh) \<longrightarrow>
      ev0 = [Alloc Desc_ring, Desc_clear, Alloc Data_buffers, Alloc Data_addrs]
              @ concat (map (buffer_events al) [0..<RING_SIZE])
      \<and> length (desc fresh) = RING_SIZE
      \<and> (\<forall>i<RING_SIZE. control (desc fresh ! i) = DESC_FLAG_OWNER_HW
                         \<and> owner (desc fresh ! i) = Hardware)
      \<and> hardware_owned fresh)
   \<and> (tx_ring dev = Ref ring \<and> update_tx_descriptor dev idx addr len = Return (ev, dev') \<longrightarrow>
      (\<exists>ring'. tx_ring dev' = Ref ring' \<and> length (desc ring') = length (desc ring)
         \<and> (\<forall>i<length (desc ring).
               control (desc ring' ! i) =
                 (if i = unat idx \<and> unat idx < unat (size_f ring)
                  then DESC_FLAG_OWNER_HW OR DESC_FLAG_INTR_ENABLE
                  else control (desc ring ! i)))
         \<and> (unat idx < unat (size_f ring) \<longrightarrow> owner (desc ring' ! unat idx) = Hardware)))
   \<and> (device_interrupt dev int_status = Some (Return (r, ev2, dev2)) \<longrightarrow>
        map_ptr desc (tx_ring dev2) = map_ptr desc (tx_ring dev)
        \<and> map_ptr desc (rx_ring dev2) = map_ptr desc (rx_ring dev))
   \<and> (desc ring1 = replicate RING_SIZE zero_descriptor
        \<and> alloc_data_loop al 0 ring1 ev1 = (res, ring2, ev3) \<longrightarrow>
      (\<exists>k\<le>RING_SIZE. res = (if k < RING_SIZE then Some k else None)
         \<and> (\<forall>j<RING_SIZE. owner (desc ring2 ! j) = (if j < k then Hardware else Software))))
   \<and> (tx_ring dev = Ref ring \<and> transmit_packet_claim dev data len = Return (rc, ev4, dev4) \<longrightarrow>
        map_ptr desc (tx_ring dev4) = Ref (desc ring) \<and> rx_ring dev4 = rx_ring dev)
   \<and> (tx_ring dev = Ref tx \<and> rx_ring dev = Ref rx \<and> hardware_owned tx \<and> hardware_owned rx
        \<and> schedule steps (idle dev) = Some (Return s') \<longrightarrow>
      (\<exists>tx' rx'. tx_ring (device s') = Ref tx' \<and> rx_ring (device s') = Ref rx'
         \<and> hardware_owned tx' \<and> hardware_owned rx'
         \<and> length (desc tx') = length (desc tx) \<and> length (desc rx') = length (desc rx)))
   \<and> (al Desc_ring = Some a \<and> al Data_buffers = Some b \<and> al Data_addrs = Some c
        \<and> alloc_data_loop al 0
             (ring0\<lparr>desc := replicate RING_SIZE zero_descriptor, dma_addr := a,
                    data_buffers := replicate RING_SIZE None,
                    data_addrs := replicate RING_SIZE 0\<rparr>)
             [Alloc Desc_ring, Desc_clear, Alloc Data_buffers, Alloc Data_addrs]
           = (None, ring3, ev5) \<longrightarrow>
        alloc_ring_buffer al ring0 =
          (Inr (), ev5,
           ring3\<lparr>size_f := of_nat RING_SIZE, head := 0, tail := 0, count := 0,
                  initialized := True, total_desc := of_nat RING_SIZE,
                  overflow_count := 0, underrun_count := 0\<rparr>))
   \<and> owner zero_descriptor = Software"
proof -
  have k1: "alloc_ring_buffer al ring0 = (Inr (), ev0, fresh) \<longrightarrow>
      ev0 = [Alloc Desc_ring, Desc_clear, Alloc Data_buffers, Alloc Data_addrs]
              @ concat (map (buffer_events al) [0..<RING_SIZE])
      \<and> length (desc fresh) = RING_SIZE
      \<and> (\<forall>i<RING_SIZE. control (desc fresh ! i) = DESC_FLAG_OWNER_HW
                         \<and> owner (desc fresh ! i) = Hardware)
      \<and> hardware_owned fresh"
  proof
    assume a: "alloc_ring_buffer al ring0 = (Inr (), ev0, fresh)"
    then have "\<exists>ev ring'. alloc_ring_buffer al ring0 = (Inr (), ev, ring')" by blast
    then have ok: "al Desc_ring \<noteq> None" "al Data_buffers \<noteq> None" "al Data_addrs \<noteq> None"
        "\<forall>i<RING_SIZE. al (Data_buffer i) \<noteq> None"
      by (simp_all add: alloc_ring_buffer_succeeds_iff)
    from alloc_ring_buffer_success [OF ok, of ring0] a
    have e: "ev0 = [Alloc Desc_ring, Desc_clear, Alloc Data_buffers, Alloc Data_addrs]
              @ concat (map (buffer_events al) [0..<RING_SIZE])" by simp
    from alloc_ring_buffer_descriptors [OF a]
    have d: "length (desc fresh) = RING_SIZE"
      "\<forall>i<RING_SIZE. control (desc fresh ! i) = DESC_FLAG_OWNER_HW
                         \<and> owner (desc fresh ! i) = Hardware"
      by simp_all
    then have h: "hardware_owned fresh" by (simp add: hardware_owned_def list_all_length)
    from e d h show "ev0 = [Alloc Desc_ring, Desc_clear, Alloc Data_buffers, Alloc Data_addrs]
              @ concat (map (buffer_events al) [0..<RING_SIZE])
      \<and> length (desc fresh) = RING_SIZE
      \<and> (\<forall>i<RING_SIZE. control (desc fresh ! i) = DESC_FLAG_OWNER_HW
                         \<and> owner (desc fresh ! i) = Hardware)
      \<and> hardware_owned fresh" by (intro conjI)
  qed
  have k2: "tx_ring dev = Ref ring \<and> update_tx_descriptor dev idx addr len = Return (ev, dev') \<longrightarrow>
      (\<exists>ring'. tx_ring dev' = Ref ring' \<and> length (desc ring') = length (desc ring)
         \<and> (\<forall>i<length (desc ring).
               control (desc ring' ! i) =
                 (if i = unat idx \<and> unat idx < unat (size_f ring)
                  then DESC_FLAG_OWNER_HW OR DESC_FLAG_INTR_ENABLE
                  else control (desc ring ! i)))
         \<and> (unat idx < unat (size_f ring) \<longrightarrow> owner (desc ring' ! unat idx) = Hardware))"
    using update_tx_descriptor_control [of dev ring idx addr len ev dev'] by blast
  have k3: "device_interrupt dev int_status = Some (Return (r, ev2, dev2)) \<longrightarrow>
        map_ptr desc (tx_ring dev2) = map_ptr desc (tx_ring dev)
        \<and> map_ptr desc (rx_ring dev2) = map_ptr desc (rx_ring dev)"
    using device_interrupt_descriptors [of dev int_status r ev2 dev2] by blast
  have z: "owner zero_descriptor = Software"
    by (simp add: owner_def zero_descriptor_def)
  have k4: "desc ring1 = replicate RING_SIZE zero_descriptor
        \<and> alloc_data_loop al 0 ring1 ev1 = (res, ring2, ev3) \<longrightarrow>
      (\<exists>k\<le>RING_SIZE. res = (if k < RING_SIZE then Some k else None)
         \<and> (\<forall>j<RING_SIZE. owner (desc ring2 ! j) = (if j < k then Hardware else Software)))"
  proof
    assume a: "desc ring1 = replicate RING_SIZE zero_descriptor
        \<and> alloc_data_loop al 0 ring1 ev1 = (res, ring2, ev3)"
    then have l: "alloc_data_loop al 0 ring1 ev1 = (res, ring2, ev3)"
      and n: "length (desc ring1) = RING_SIZE"
      and o: "\<forall>j<RING_SIZE. owner (desc ring1 ! j) = Software"
      using z by simp_all
    from alloc_data_loop_ownership [OF l n o]
    show "\<exists>k\<le>RING_SIZE. res = (if k < RING_SIZE then Some k else None)
         \<and> (\<forall>j<RING_SIZE. owner (desc ring2 ! j) = (if j < k then Hardware else Software))" .
  qed
  have k5: "tx_ring dev = Ref ring \<and> transmit_packet_claim dev data len = Return (rc, ev4, dev4) \<longrightarrow>
        map_ptr desc (tx_ring dev4) = Ref (desc ring) \<and> rx_ring dev4 = rx_ring dev"
    using transmit_packet_claim_effect [of dev data len rc ev4 dev4 ring] by auto
  have k6: "tx_ring dev = Ref tx \<and> rx_ring dev = Ref rx \<and> hardware_owned tx \<and> hardware_owned rx
        \<and> schedule steps (idle dev) = Some (Return s') \<longrightarrow>
      (\<exists>tx' rx'. tx_ring (device s') = Ref tx' \<and> rx_ring (device s') = Ref rx'
         \<and> hardware_owned tx' \<and> hardware_owned rx'
         \<and> length (desc tx') = length (desc tx) \<and> length (desc rx') = length (desc rx))"
  proof
    assume "tx_ring dev = Ref tx \<and> rx_ring dev = Ref rx \<and> hardware_owned tx \<and> hardware_owned rx
        \<and> schedule steps (idle dev) = Some (Return s')"
    then have h: "schedule steps (idle dev) = Some (Return s')"
      "tx_ring (device (idle dev)) = Ref tx" "rx_ring (device (idle dev)) = Ref rx"
      "hardware_owned tx" "hardware_owned rx"
      by (simp_all add: idle_def)
    from schedule_owner [OF h]
    show "\<exists>tx' rx'. tx_ring (device s') = Ref tx' \<and> rx_ring (device s') = Ref rx'
         \<and> hardware_owned tx' \<and> hardware_owned rx'
         \<and> length (desc tx') = length (desc tx) \<and> length (desc rx') = length (desc rx)" .
  qed
  have k7: "al Desc_ring = Some a \<and> al Data_buffers = Some b \<and> al Data_addrs = Some c
        \<and> alloc_data_loop al 0
             (ring0\<lparr>desc := replicate RING_SIZE zero_descriptor, dma_addr := a,
                    data_buffers := replicate RING_SIZE None,
                    data_addrs := replicate RING_SIZE 0\<rparr>)
             [Alloc Desc_ring, Desc_clear, Alloc Data_buffers, Alloc Data_addrs]
           = (None, ring3, ev5) \<longrightarrow>
        alloc_ring_buffer al ring0 =
          (Inr (), ev5,
           ring3\<lparr>size_f := of_nat RING_SIZE, head := 0, tail := 0, count := 0,
                  initialized := True, total_desc := of_nat RING_SIZE,
                  overflow_count := 0, underrun_count := 0\<rparr>)"
    using alloc_ring_buffer_loop [of al a b c ring0 ring3 ev5] by blast
  show ?thesis
    by (intro conjI) (rule k1 k2 k3 k4 k5 k6 k7 z)+
qed

theorem ownership_counterexample:
  "alloc_ring_buffer plentiful kzalloc_ring
     = (Inr (), fst (snd (alloc_ring_buffer plentiful kzalloc_ring)), fresh_ring)
   \<and> count fresh_ring = 0 \<and> owner (desc fresh_ring ! 0) = Hardware
   \<and> run [Transmit [1, 2, 3] 3, Completion TX 0, Interrupt INT_STATUS_TX] fresh_device
       = Some (Return (fresh_device\<lparr>tx_ring := Ref reclaimed_ring, tx_packets := 1,
                                      interrupts := 1\<rparr>))
   \<and> tail reclaimed_ring = 1 \<and> count reclaimed_ring = 0
   \<and> owner (desc reclaimed_ring ! 0) = Hardware"
  using fresh_ring_alloc run_transmit_complete_reclaim
  by (simp add: fresh_ring_fields reclaimed_ring_fields fresh_ring_slot0 owner_def
        buffer_descriptor_def DESC_FLAG_OWNER_HW_def)

theorem ownership_written_as_hardware_witness:
  "alloc_ring_buffer plentiful kzalloc_ring
     = (Inr (), fst (snd (alloc_ring_buffer plentiful kzalloc_ring)), fresh_ring)
   \<and> owner (desc fresh_ring ! 7) = Hardware
   \<and> hardware_owned fresh_ring
   \<and> tx_ring fresh_device = Ref fresh_ring \<and> rx_ring fresh_device = Ref fresh_ring
   \<and> update_tx_descriptor fresh_device 0 0x100000 60 =
       Return ([Desc_store 0 Buffer_addr 0x100000, Desc_store 0 Length 60,
                Desc_store 0 Status 0, Desc_store 0 Control 0xC0000000, Wmb,
                Writel 0 TX_RING_PTR, Head_store 1, Count_store 1, Wake_up Tx_wait],
               fresh_device\<lparr>tx_ring := Ref (fresh_ring\<lparr>
                 desc := (desc fresh_ring)[0 :=
                   \<lparr>buffer_addr = 0x100000, length_f = 60, status = 0, control = 0xC0000000\<rparr>],
                 head := 1, count := 1\<rparr>)\<rparr>)
   \<and> (\<exists>ring'. tx_ring (fresh_device\<lparr>tx_ring := Ref (fresh_ring\<lparr>
                 desc := (desc fresh_ring)[0 :=
                   \<lparr>buffer_addr = 0x100000, length_f = 60, status = 0, control = 0xC0000000\<rparr>],
                 head := 1, count := 1\<rparr>)\<rparr>) = Ref ring'
          \<and> owner (desc ring' ! 0) = Hardware)
   \<and> device_interrupt fresh_device INT_STATUS_TX =
        Some (Return (IRQ_HANDLED, [Readl INT_STATUS, Writel INT_STATUS_TX INT_STATUS],
                      fresh_device\<lparr>interrupts := 1\<rparr>))
   \<and> map_ptr desc (tx_ring (fresh_device\<lparr>interrupts := 1\<rparr>))
        = map_ptr desc (tx_ring fresh_device)
   \<and> schedule [Claim 0 [1, 2, 3] 3, Irq INT_STATUS_TX, Publish 0, Device_done TX 0,
               Irq INT_STATUS_TX] (idle fresh_device)
       = Some (Return (idle (fresh_device\<lparr>tx_ring := Ref reclaimed_ring, tx_packets := 1,
                                            interrupts := 2\<rparr>)))
   \<and> hardware_owned reclaimed_ring"
proof -
  let ?dev' = "fresh_device\<lparr>tx_ring := Ref (fresh_ring\<lparr>
                 desc := (desc fresh_ring)[0 :=
                   \<lparr>buffer_addr = 0x100000, length_f = 60, status = 0, control = 0xC0000000\<rparr>],
                 head := 1, count := 1\<rparr>)\<rparr>"
  let ?steps = "[Claim 0 [1, 2, 3] 3, Irq INT_STATUS_TX, Publish 0, Device_done TX 0,
                 Irq INT_STATUS_TX]"
  note t = ownership_written_as_hardware [where al = plentiful and ?ring0.0 = kzalloc_ring
      and ?ev0.0 = "fst (snd (alloc_ring_buffer plentiful kzalloc_ring))" and fresh = fresh_ring
      and dev = fresh_device and ring = fresh_ring and idx = 0 and addr = "0x100000"
      and len = 60 and dev' = ?dev' and int_status = INT_STATUS_TX
      and ?dev2.0 = "fresh_device\<lparr>interrupts := 1\<rparr>"
      and tx = fresh_ring and rx = fresh_ring and steps = ?steps
      and s' = "idle (fresh_device\<lparr>tx_ring := Ref reclaimed_ring, tx_packets := 1,
                                    interrupts := 2\<rparr>)"]
  from t [THEN conjunct1, rule_format, OF fresh_ring_alloc]
  have a: "owner (desc fresh_ring ! 7) = Hardware" and h: "hardware_owned fresh_ring"
    by (simp_all add: RING_SIZE_def)
  have "tx_ring fresh_device = Ref fresh_ring
          \<and> update_tx_descriptor fresh_device 0 0x100000 60 =
       Return ([Desc_store 0 Buffer_addr 0x100000, Desc_store 0 Length 60,
                Desc_store 0 Status 0, Desc_store 0 Control 0xC0000000, Wmb,
                Writel 0 TX_RING_PTR, Head_store 1, Count_store 1, Wake_up Tx_wait], ?dev')"
    using publish_fresh fresh_device_fields(1) by simp
  from t [THEN conjunct2, THEN conjunct1, rule_format, OF this]
  have b: "\<exists>ring'. tx_ring ?dev' = Ref ring' \<and> owner (desc ring' ! 0) = Hardware"
    by (auto simp: fresh_ring_fields)
  from t [THEN conjunct2, THEN conjunct2, THEN conjunct1, rule_format, OF interrupt_idle_fresh]
  have c: "map_ptr desc (tx_ring (fresh_device\<lparr>interrupts := 1\<rparr>))
        = map_ptr desc (tx_ring fresh_device)" by simp
  have "tx_ring fresh_device = Ref fresh_ring \<and> rx_ring fresh_device = Ref fresh_ring
        \<and> hardware_owned fresh_ring \<and> hardware_owned fresh_ring
        \<and> schedule ?steps (idle fresh_device)
           = Some (Return (idle (fresh_device\<lparr>tx_ring := Ref reclaimed_ring, tx_packets := 1,
                                            interrupts := 2\<rparr>)))"
    using h fresh_device_fields interleaved_transmit by simp
  from t [THEN conjunct2, THEN conjunct2, THEN conjunct2, THEN conjunct2, THEN conjunct2,
          THEN conjunct1, rule_format, OF this]
  have d: "hardware_owned reclaimed_ring" by (auto simp: idle_def)
  from fresh_ring_alloc a h fresh_device_fields(1,2) publish_fresh b interrupt_idle_fresh c
    interleaved_transmit d
  show ?thesis by (intro conjI) (simp_all only:)
qed

subsection \<open>The order of the stores in publish\<close>

text \<open>
  Claim C4, as the code has it. For a valid index, \<^verbatim>\<open>update_tx_descriptor\<close>
  stores the buffer address, the length, the status and then the control word
  with the ownership bit set to Hardware; the write barrier comes after all four
  stores, the one of the control word included, and before the doorbell write to
  \<^verbatim>\<open>TX_RING_PTR\<close>. Only after the barrier and the doorbell does it store the
  new head, the index after \<open>idx\<close> modulo the ring size, and then the new
  count, one higher: neither store comes before the barrier or before the
  doorbell, and the state returned has these two values.
\<close>

theorem publish_order:
  assumes "tx_ring dev = Ref ring" and "unat idx < unat (size_f ring)"
    and "unat (size_f ring) \<le> length (desc ring)"
  shows "\<exists>ev dev' ring'. update_tx_descriptor dev idx addr len = Return (ev, dev')
           \<and> ev = [Desc_store (unat idx) Buffer_addr (ucast addr),
                   Desc_store (unat idx) Length (ucast len),
                   Desc_store (unat idx) Status 0,
                   Desc_store (unat idx) Control (DESC_FLAG_OWNER_HW OR DESC_FLAG_INTR_ENABLE),
                   Wmb,
                   Writel idx TX_RING_PTR,
                   Head_store (next_index idx (size_f ring)),
                   Count_store (count ring + 1),
                   Wake_up Tx_wait]
           \<and> precedes (Desc_store (unat idx) Buffer_addr (ucast addr)) Wmb ev
           \<and> precedes (Desc_store (unat idx) Length (ucast len)) Wmb ev
           \<and> precedes (Desc_store (unat idx) Status 0) Wmb ev
           \<and> precedes (Desc_store (unat idx) Control
                         (DESC_FLAG_OWNER_HW OR DESC_FLAG_INTR_ENABLE)) Wmb ev
           \<and> \<not> precedes Wmb (Desc_store (unat idx) Control
                         (DESC_FLAG_OWNER_HW OR DESC_FLAG_INTR_ENABLE)) ev
           \<and> precedes Wmb (Writel idx TX_RING_PTR) ev
           \<and> precedes Wmb (Head_store (next_index idx (size_f ring))) ev
           \<and> precedes Wmb (Count_store (count ring + 1)) ev
           \<and> precedes (Writel idx TX_RING_PTR) (Head_store (next_index idx (size_f ring))) ev
           \<and> precedes (Writel idx TX_RING_PTR) (Count_store (count ring + 1)) ev
           \<and> precedes (Head_store (next_index idx (size_f ring)))
                       (Count_store (count ring + 1)) ev
           \<and> \<not> precedes (Head_store (next_index idx (size_f ring))) Wmb ev
           \<and> \<not> precedes (Count_store (count ring + 1)) Wmb ev
           \<and> \<not> precedes (Head_store (next_index idx (size_f ring))) (Writel idx TX_RING_PTR) ev
           \<and> \<not> precedes (Count_store (count ring + 1)) (Writel idx TX_RING_PTR) ev
           \<and> filter is_index_store ev
               = [Head_store (next_index idx (size_f ring)), Count_store (count ring + 1)]
           \<and> tx_ring dev' = Ref ring'
           \<and> owner (desc ring' ! unat idx) = Hardware
           \<and> head ring' = next_index idx (size_f ring)
           \<and> count ring' = count ring + 1"
proof -
  have o: "owner \<lparr>buffer_addr = ucast addr, length_f = ucast len, status = 0,
                  control = DESC_FLAG_OWNER_HW OR DESC_FLAG_INTR_ENABLE\<rparr> = Hardware"
    by (simp add: owner_def DESC_FLAG_OWNER_HW_def DESC_FLAG_INTR_ENABLE_def)
  have i: "unat idx < length (desc ring)" using assms(2,3) by simp
  show ?thesis
    by (simp add: update_tx_descriptor_publish [OF assms] precedes_simps o i)
qed

theorem publish_order_counterexample:
  "update_tx_descriptor fresh_device 0 0x100000 60 =
     Return ([Desc_store 0 Buffer_addr 0x100000,
              Desc_store 0 Length 60,
              Desc_store 0 Status 0,
              Desc_store 0 Control 0xC0000000,
              Wmb,
              Writel 0 TX_RING_PTR,
              Head_store 1,
              Count_store 1,
              Wake_up Tx_wait],
             fresh_device\<lparr>tx_ring := Ref (fresh_ring\<lparr>
               desc := (desc fresh_ring)[0 :=
                 \<lparr>buffer_addr = 0x100000, length_f = 60, status = 0, control = 0xC0000000\<rparr>],
               head := 1, count := 1\<rparr>)\<rparr>)
   \<and> \<not> precedes Wmb (Desc_store 0 Control 0xC0000000)
         [Desc_store 0 Buffer_addr 0x100000,
          Desc_store 0 Length 60,
          Desc_store 0 Status 0,
          Desc_store 0 Control 0xC0000000,
          Wmb,
          Writel 0 TX_RING_PTR,
          Head_store 1,
          Count_store 1,
          Wake_up Tx_wait]
   \<and> precedes (Desc_store 0 Control 0xC0000000) Wmb
         [Desc_store 0 Buffer_addr 0x100000,
          Desc_store 0 Length 60,
          Desc_store 0 Status 0,
          Desc_store 0 Control 0xC0000000,
          Wmb,
          Writel 0 TX_RING_PTR,
          Head_store 1,
          Count_store 1,
          Wake_up Tx_wait]"
  using publish_fresh by (simp add: precedes_simps)

theorem publish_order_witness:
  "tx_ring fresh_device = Ref fresh_ring \<and> unat (5 :: u32) < unat (size_f fresh_ring)
   \<and> unat (size_f fresh_ring) \<le> length (desc fresh_ring)
   \<and> (\<exists>ev dev' ring'. update_tx_descriptor fresh_device 5 0x102800 60 = Return (ev, dev')
         \<and> ev = [Desc_store 5 Buffer_addr 0x102800,
                 Desc_store 5 Length 60,
                 Desc_store 5 Status 0,
                 Desc_store 5 Control 0xC0000000,
                 Wmb,
                 Writel 5 TX_RING_PTR,
                 Head_store 6,
                 Count_store 1,
                 Wake_up Tx_wait]
         \<and> precedes Wmb (Writel 5 TX_RING_PTR) ev
         \<and> precedes Wmb (Head_store 6) ev
         \<and> precedes (Writel 5 TX_RING_PTR) (Head_store 6) ev
         \<and> precedes (Head_store 6) (Count_store 1) ev
         \<and> \<not> precedes (Head_store 6) Wmb ev
         \<and> tx_ring dev' = Ref ring' \<and> owner (desc ring' ! 5) = Hardware
         \<and> head ring' = 6 \<and> count ring' = 1)"
proof -
  have a: "unat (5 :: u32) < unat (size_f fresh_ring)"
    and b: "unat (size_f fresh_ring) \<le> length (desc fresh_ring)"
    by (simp_all add: fresh_ring_fields)
  have n: "next_index 5 256 = 6"
    by (simp add: next_index_def)
  from publish_order [where addr = "0x102800" and len = 60, OF fresh_device_fields(1) a b]
  obtain ev dev' ring' where
    "update_tx_descriptor fresh_device 5 0x102800 60 = Return (ev, dev')"
    "ev = [Desc_store 5 Buffer_addr 0x102800, Desc_store 5 Length 60, Desc_store 5 Status 0,
           Desc_store 5 Control 0xC0000000, Wmb, Writel 5 TX_RING_PTR, Head_store 6,
           Count_store 1, Wake_up Tx_wait]"
    "precedes Wmb (Writel 5 TX_RING_PTR) ev"
    "precedes Wmb (Head_store 6) ev"
    "precedes (Writel 5 TX_RING_PTR) (Head_store 6) ev"
    "precedes (Head_store 6) (Count_store 1) ev"
    "\<not> precedes (Head_store 6) Wmb ev"
    "tx_ring dev' = Ref ring'" "owner (desc ring' ! 5) = Hardware"
    "head ring' = 6" "count ring' = 1"
    by (auto simp: n fresh_ring_fields DESC_FLAG_OWNER_HW_def DESC_FLAG_INTR_ENABLE_def)
  with fresh_device_fields(1) a b show ?thesis by blast
qed

subsection \<open>Termination of the completion loops\<close>

text \<open>
  Claim C5, at the input where the code departs from it. When every descriptor
  of the receive ring has the DONE bit, an interrupt with the receive bit never
  returns: the loop \<^verbatim>\<open>while (true)\<close> advances \<^verbatim>\<open>head\<close> around the ring, never
  clears a status word and never finds a descriptor that is not done.
\<close>

theorem rx_completion_never_returns:
  assumes "rx_ring dev = Ref ring" and "ring_wf ring"
    and "length (desc ring) = unat (size_f ring)" and "all_done ring"
  shows "device_interrupt dev INT_STATUS_RX = None"
proof -
  have "rx_completion_loop ring (rx_packets dev) False = None"
    using assms(2,4,3) by (rule rx_completion_loop_diverges)
  then show ?thesis
    using assms(1)
    by (simp add: device_interrupt_def handle_tx_completion_def handle_rx_completion_def
          INT_STATUS_RX_def INT_STATUS_TX_def)
qed

theorem rx_completion_never_returns_witness:
  "rx_ring (fresh_device\<lparr>rx_ring := Ref saturated_ring\<rparr>) = Ref saturated_ring
   \<and> ring_wf saturated_ring
   \<and> length (desc saturated_ring) = unat (size_f saturated_ring)
   \<and> all_done saturated_ring
   \<and> device_interrupt (fresh_device\<lparr>rx_ring := Ref saturated_ring\<rparr>) INT_STATUS_RX = None"
proof -
  have r: "rx_ring (fresh_device\<lparr>rx_ring := Ref saturated_ring\<rparr>) = Ref saturated_ring"
    by simp
  from rx_completion_never_returns [OF r saturated_ring_facts(1,3,2)] r saturated_ring_facts
  show ?thesis by blast
qed

subsection \<open>The overflow counter\<close>

text \<open>
  Claim C6. For a transmit ring whose head is a valid index,
  \<^verbatim>\<open>transmit_packet\<close> adds one to \<^verbatim>\<open>overflow_count\<close> exactly when it returns
  \<^verbatim>\<open>-ENOBUFS\<close>, which it does exactly when the device is started, the length is
  acceptable and \<^verbatim>\<open>count >= size\<close>. The head is a valid index at every state
  that a run of transmits, interrupts and completions reaches from well-formed
  rings, so this holds there. \<^verbatim>\<open>device_interrupt\<close> leaves the counter of both
  rings alone. Step by step, at every state that a schedule of claims,
  publishes, interrupts and completions reaches, with any number of producers,
  a step changes the counter exactly when it is a claim that finds the ring
  full, and then by one; no publish changes it, because the index published is
  a head that was read below the size. On a ring of capacity 4 with no pending
  slot, four transmits of valid payloads succeed and the fifth returns
  \<^verbatim>\<open>-ENOBUFS\<close>, after which the counter is 1.
\<close>

theorem overflow_count_increments:
  "(tx_ring dev = Ref ring \<and> unat (head ring) < unat (size_f ring)
      \<and> transmit_packet dev data len = Return (rc, ev, dev') \<longrightarrow>
      (\<exists>ring'. tx_ring dev' = Ref ring'
         \<and> overflow_count ring' =
             (if rc = Inl ENOBUFS then overflow_count ring + 1 else overflow_count ring)
         \<and> (rc = Inl ENOBUFS) =
             (started dev \<and> len \<le> of_nat MAX_FRAME_SIZE
              \<and> unat (size_f ring) \<le> unat (count ring))))
   \<and> (tx_ring dev0 = Ref tx \<and> ring_wf tx \<and> rx_ring dev0 = Ref rx \<and> ring_wf rx
        \<and> run ops dev0 = Some (Return dev)
        \<and> transmit_packet dev data len = Return (rc, ev, dev') \<longrightarrow>
      (\<exists>ring ring'. tx_ring dev = Ref ring \<and> tx_ring dev' = Ref ring'
         \<and> overflow_count ring' =
             (if rc = Inl ENOBUFS then overflow_count ring + 1 else overflow_count ring)
         \<and> (rc = Inl ENOBUFS) =
             (started dev \<and> len \<le> of_nat MAX_FRAME_SIZE
              \<and> unat (size_f ring) \<le> unat (count ring))))
   \<and> (device_interrupt dev int_status = Some (Return (r, ev3, dev3)) \<longrightarrow>
        map_ptr overflow_count (tx_ring dev3) = map_ptr overflow_count (tx_ring dev)
        \<and> map_ptr overflow_count (rx_ring dev3) = map_ptr overflow_count (rx_ring dev))
   \<and> (tx_ring dev0 = Ref tx \<and> ring_wf tx \<and> rx_ring dev0 = Ref rx \<and> ring_wf rx
        \<and> schedule steps (idle dev0) = Some (Return s1)
        \<and> apply_step x s1 = Some (Return s2) \<longrightarrow>
      (\<exists>tx1 tx2. tx_ring (device s1) = Ref tx1 \<and> tx_ring (device s2) = Ref tx2
         \<and> overflow_count tx2 =
             (if claim_fails_full x s1 then overflow_count tx1 + 1 else overflow_count tx1)))
   \<and> (tx_ring (device s) = Ref tx \<longrightarrow>
        claim_fails_full (Claim t data len) s =
          (claimed s t = None \<and> started (device s) \<and> len \<le> of_nat MAX_FRAME_SIZE
           \<and> unat (size_f tx) \<le> unat (count tx)))
   \<and> \<not> claim_fails_full (Publish t) s
   \<and> \<not> claim_fails_full (Irq int_status) s
   \<and> \<not> claim_fails_full (Device_done rid i) s
   \<and> (started dev \<and> tx_ring dev = Ref ring \<and> ring_wf ring \<and> buffers_ok ring
        \<and> size_f ring = 4 \<and> count ring = 0 \<and> overflow_count ring = 0
        \<and> valid_payload p1 l1 \<and> valid_payload p2 l2 \<and> valid_payload p3 l3
        \<and> valid_payload p4 l4 \<and> valid_payload p5 l5 \<longrightarrow>
      (\<exists>e1 d1 e2 d2 e3 d3 e4 d4 d5 r5.
           transmit_packet dev p1 l1 = Return (Inr (), e1, d1)
         \<and> transmit_packet d1 p2 l2 = Return (Inr (), e2, d2)
         \<and> transmit_packet d2 p3 l3 = Return (Inr (), e3, d3)
         \<and> transmit_packet d3 p4 l4 = Return (Inr (), e4, d4)
         \<and> transmit_packet d4 p5 l5 = Return (Inl ENOBUFS, [], d5)
         \<and> tx_ring d5 = Ref r5 \<and> overflow_count r5 = 1))"
proof -
  have q1: "tx_ring dev = Ref ring \<and> unat (head ring) < unat (size_f ring)
      \<and> transmit_packet dev data len = Return (rc, ev, dev') \<longrightarrow>
      (\<exists>ring'. tx_ring dev' = Ref ring'
         \<and> overflow_count ring' =
             (if rc = Inl ENOBUFS then overflow_count ring + 1 else overflow_count ring)
         \<and> (rc = Inl ENOBUFS) =
             (started dev \<and> len \<le> of_nat MAX_FRAME_SIZE
              \<and> unat (size_f ring) \<le> unat (count ring)))"
    using transmit_packet_overflow [of dev ring data len rc ev dev'] by blast
  have q2: "tx_ring dev0 = Ref tx \<and> ring_wf tx \<and> rx_ring dev0 = Ref rx \<and> ring_wf rx
        \<and> run ops dev0 = Some (Return dev)
        \<and> transmit_packet dev data len = Return (rc, ev, dev') \<longrightarrow>
      (\<exists>ring ring'. tx_ring dev = Ref ring \<and> tx_ring dev' = Ref ring'
         \<and> overflow_count ring' =
             (if rc = Inl ENOBUFS then overflow_count ring + 1 else overflow_count ring)
         \<and> (rc = Inl ENOBUFS) =
             (started dev \<and> len \<le> of_nat MAX_FRAME_SIZE
              \<and> unat (size_f ring) \<le> unat (count ring)))"
  proof
    assume "tx_ring dev0 = Ref tx \<and> ring_wf tx \<and> rx_ring dev0 = Ref rx \<and> ring_wf rx
        \<and> run ops dev0 = Some (Return dev)
        \<and> transmit_packet dev data len = Return (rc, ev, dev')"
    then have h: "tx_ring (device (idle dev0)) = Ref tx" "ring_wf tx"
        "rx_ring (device (idle dev0)) = Ref rx" "ring_wf rx"
      and rn: "run ops dev0 = Some (Return dev)"
      and tp: "transmit_packet dev data len = Return (rc, ev, dev')"
      by (simp_all add: idle_def)
    have e: "\<forall>t idx len. claimed (idle dev0) t = Some (idx, len) \<longrightarrow>
               unat idx < unat (size_f tx)"
      by (simp add: idle_def)
    from schedule_wf [OF run_as_schedule [OF rn] h e]
    obtain ring where ring: "tx_ring dev = Ref ring" "ring_wf ring"
      by (auto simp: idle_def)
    then have hd: "unat (head ring) < unat (size_f ring)" by (simp add: ring_wf_def)
    from transmit_packet_overflow [OF ring(1) hd tp] ring(1)
    show "\<exists>ring ring'. tx_ring dev = Ref ring \<and> tx_ring dev' = Ref ring'
         \<and> overflow_count ring' =
             (if rc = Inl ENOBUFS then overflow_count ring + 1 else overflow_count ring)
         \<and> (rc = Inl ENOBUFS) =
             (started dev \<and> len \<le> of_nat MAX_FRAME_SIZE
              \<and> unat (size_f ring) \<le> unat (count ring))"
      by blast
  qed
  have q3: "device_interrupt dev int_status = Some (Return (r, ev3, dev3)) \<longrightarrow>
        map_ptr overflow_count (tx_ring dev3) = map_ptr overflow_count (tx_ring dev)
        \<and> map_ptr overflow_count (rx_ring dev3) = map_ptr overflow_count (rx_ring dev)"
    using device_interrupt_overflow [of dev int_status r ev3 dev3] by blast
  have q4: "tx_ring dev0 = Ref tx \<and> ring_wf tx \<and> rx_ring dev0 = Ref rx \<and> ring_wf rx
        \<and> schedule steps (idle dev0) = Some (Return s1)
        \<and> apply_step x s1 = Some (Return s2) \<longrightarrow>
      (\<exists>tx1 tx2. tx_ring (device s1) = Ref tx1 \<and> tx_ring (device s2) = Ref tx2
         \<and> overflow_count tx2 =
             (if claim_fails_full x s1 then overflow_count tx1 + 1 else overflow_count tx1))"
  proof
    assume "tx_ring dev0 = Ref tx \<and> ring_wf tx \<and> rx_ring dev0 = Ref rx \<and> ring_wf rx
        \<and> schedule steps (idle dev0) = Some (Return s1)
        \<and> apply_step x s1 = Some (Return s2)"
    then have h: "schedule steps (idle dev0) = Some (Return s1)"
        "tx_ring (device (idle dev0)) = Ref tx" "ring_wf tx"
        "rx_ring (device (idle dev0)) = Ref rx" "ring_wf rx"
      and st: "apply_step x s1 = Some (Return s2)"
      by (simp_all add: idle_def)
    have e: "\<forall>t idx len. claimed (idle dev0) t = Some (idx, len) \<longrightarrow>
               unat idx < unat (size_f tx)"
      by (simp add: idle_def)
    from schedule_wf [OF h e]
    obtain tx1 rx1 where w: "tx_ring (device s1) = Ref tx1" "ring_wf tx1"
        "rx_ring (device s1) = Ref rx1" "ring_wf rx1"
        "\<forall>t idx len. claimed s1 t = Some (idx, len) \<longrightarrow> unat idx < unat (size_f tx1)"
      by blast
    from apply_step_wf [OF st w] w(1)
    show "\<exists>tx1 tx2. tx_ring (device s1) = Ref tx1 \<and> tx_ring (device s2) = Ref tx2
         \<and> overflow_count tx2 =
             (if claim_fails_full x s1 then overflow_count tx1 + 1 else overflow_count tx1)"
      by blast
  qed
  have q5: "tx_ring (device s) = Ref tx \<longrightarrow>
        claim_fails_full (Claim t data len) s =
          (claimed s t = None \<and> started (device s) \<and> len \<le> of_nat MAX_FRAME_SIZE
           \<and> unat (size_f tx) \<le> unat (count tx))"
    using claim_fails_full_iff [of s tx t data len] by blast
  have q6: "\<not> claim_fails_full (Publish t) s" "\<not> claim_fails_full (Irq int_status) s"
    "\<not> claim_fails_full (Device_done rid i) s"
    by (simp_all add: claim_fails_full_def)
  have q7: "started dev \<and> tx_ring dev = Ref ring \<and> ring_wf ring \<and> buffers_ok ring
        \<and> size_f ring = 4 \<and> count ring = 0 \<and> overflow_count ring = 0
        \<and> valid_payload p1 l1 \<and> valid_payload p2 l2 \<and> valid_payload p3 l3
        \<and> valid_payload p4 l4 \<and> valid_payload p5 l5 \<longrightarrow>
      (\<exists>e1 d1 e2 d2 e3 d3 e4 d4 d5 r5.
           transmit_packet dev p1 l1 = Return (Inr (), e1, d1)
         \<and> transmit_packet d1 p2 l2 = Return (Inr (), e2, d2)
         \<and> transmit_packet d2 p3 l3 = Return (Inr (), e3, d3)
         \<and> transmit_packet d3 p4 l4 = Return (Inr (), e4, d4)
         \<and> transmit_packet d4 p5 l5 = Return (Inl ENOBUFS, [], d5)
         \<and> tx_ring d5 = Ref r5 \<and> overflow_count r5 = 1)"
  proof
    assume a: "started dev \<and> tx_ring dev = Ref ring \<and> ring_wf ring \<and> buffers_ok ring
        \<and> size_f ring = 4 \<and> count ring = 0 \<and> overflow_count ring = 0
        \<and> valid_payload p1 l1 \<and> valid_payload p2 l2 \<and> valid_payload p3 l3
        \<and> valid_payload p4 l4 \<and> valid_payload p5 l5"
    then have "\<exists>e1 d1 e2 d2 e3 d3 e4 d4 d5 r5.
           transmit_packet dev p1 l1 = Return (Inr (), e1, d1)
         \<and> transmit_packet d1 p2 l2 = Return (Inr (), e2, d2)
         \<and> transmit_packet d2 p3 l3 = Return (Inr (), e3, d3)
         \<and> transmit_packet d3 p4 l4 = Return (Inr (), e4, d4)
         \<and> transmit_packet d4 p5 l5 = Return (Inl ENOBUFS, [], d5)
         \<and> tx_ring d5 = Ref r5 \<and> overflow_count r5 = overflow_count ring + 1"
      by (intro four_then_full) simp_all
    with a show "\<exists>e1 d1 e2 d2 e3 d3 e4 d4 d5 r5.
           transmit_packet dev p1 l1 = Return (Inr (), e1, d1)
         \<and> transmit_packet d1 p2 l2 = Return (Inr (), e2, d2)
         \<and> transmit_packet d2 p3 l3 = Return (Inr (), e3, d3)
         \<and> transmit_packet d3 p4 l4 = Return (Inr (), e4, d4)
         \<and> transmit_packet d4 p5 l5 = Return (Inl ENOBUFS, [], d5)
         \<and> tx_ring d5 = Ref r5 \<and> overflow_count r5 = 1"
      by simp
  qed
  show ?thesis
    by (intro conjI) (rule q1 q2 q3 q4 q5 q6 q7)+
qed

theorem overflow_count_increments_witness:
  "started capacity4_device \<and> tx_ring capacity4_device = Ref capacity4_ring
   \<and> rx_ring capacity4_device = Ref capacity4_ring
   \<and> ring_wf capacity4_ring \<and> buffers_ok capacity4_ring
   \<and> size_f capacity4_ring = 4 \<and> count capacity4_ring = 0 \<and> overflow_count capacity4_ring = 0
   \<and> valid_payload [1, 2, 3] 3
   \<and> (\<exists>e1 d1 e2 d2 e3 d3 e4 d4 d5 r5.
           transmit_packet capacity4_device [1, 2, 3] 3 = Return (Inr (), e1, d1)
         \<and> transmit_packet d1 [1, 2, 3] 3 = Return (Inr (), e2, d2)
         \<and> transmit_packet d2 [1, 2, 3] 3 = Return (Inr (), e3, d3)
         \<and> transmit_packet d3 [1, 2, 3] 3 = Return (Inr (), e4, d4)
         \<and> transmit_packet d4 [1, 2, 3] 3 = Return (Inl ENOBUFS, [], d5)
         \<and> tx_ring d5 = Ref r5 \<and> overflow_count r5 = 1)
   \<and> run [Transmit [1, 2, 3] 3, Transmit [1, 2, 3] 3, Transmit [1, 2, 3] 3,
           Transmit [1, 2, 3] 3] capacity4_device
       = Some (Return (capacity4_device\<lparr>tx_ring := Ref full_ring, tx_packets := 4\<rparr>))
   \<and> transmit_packet (capacity4_device\<lparr>tx_ring := Ref full_ring, tx_packets := 4\<rparr>) [1, 2, 3] 3
       = Return (Inl ENOBUFS, [],
                 capacity4_device\<lparr>tx_ring := Ref (full_ring\<lparr>overflow_count := 1\<rparr>),
                                   tx_packets := 4\<rparr>)
   \<and> count full_ring = 4 \<and> size_f full_ring = 4 \<and> overflow_count full_ring = 0
   \<and> (\<exists>ring ring'.
          tx_ring (capacity4_device\<lparr>tx_ring := Ref full_ring, tx_packets := 4\<rparr>) = Ref ring
        \<and> tx_ring (capacity4_device\<lparr>tx_ring := Ref (full_ring\<lparr>overflow_count := 1\<rparr>),
                                     tx_packets := 4\<rparr>) = Ref ring'
        \<and> overflow_count ring' = overflow_count ring + 1)
   \<and> schedule [Claim 0 [1, 2, 3] 3, Publish 0, Claim 0 [1, 2, 3] 3, Publish 0,
               Claim 0 [1, 2, 3] 3, Publish 0, Claim 0 [1, 2, 3] 3, Publish 0]
        (idle capacity4_device)
       = Some (Return (idle (capacity4_device\<lparr>tx_ring := Ref full_ring, tx_packets := 4\<rparr>)))
   \<and> apply_step (Claim 0 [1, 2, 3] 3)
        (idle (capacity4_device\<lparr>tx_ring := Ref full_ring, tx_packets := 4\<rparr>))
       = Some (Return (idle (capacity4_device\<lparr>tx_ring := Ref (full_ring\<lparr>overflow_count := 1\<rparr>),
                                               tx_packets := 4\<rparr>)))
   \<and> claim_fails_full (Claim 0 [1, 2, 3] 3)
        (idle (capacity4_device\<lparr>tx_ring := Ref full_ring, tx_packets := 4\<rparr>))
   \<and> (\<exists>tx1 tx2.
          tx_ring (device (idle (capacity4_device\<lparr>tx_ring := Ref full_ring,
                                                   tx_packets := 4\<rparr>))) = Ref tx1
        \<and> tx_ring (device (idle (capacity4_device\<lparr>tx_ring :=
                                     Ref (full_ring\<lparr>overflow_count := 1\<rparr>),
                                   tx_packets := 4\<rparr>))) = Ref tx2
        \<and> overflow_count tx2 = overflow_count tx1 + 1)
   \<and> device_interrupt capacity4_device 0
       = Some (Return (IRQ_NONE, [Readl INT_STATUS], capacity4_device))"
proof -
  let ?ops = "[Transmit [1, 2, 3] 3, Transmit [1, 2, 3] 3, Transmit [1, 2, 3] 3,
               Transmit [1, 2, 3] 3]"
  let ?steps = "[Claim 0 [1, 2, 3] 3, Publish 0, Claim 0 [1, 2, 3] 3, Publish 0,
                 Claim 0 [1, 2, 3] 3, Publish 0, Claim 0 [1, 2, 3] 3, Publish 0]"
  let ?D4 = "capacity4_device\<lparr>tx_ring := Ref full_ring, tx_packets := 4\<rparr>"
  let ?D5 = "capacity4_device\<lparr>tx_ring := Ref (full_ring\<lparr>overflow_count := 1\<rparr>),
                               tx_packets := 4\<rparr>"
  have h: "started capacity4_device \<and> tx_ring capacity4_device = Ref capacity4_ring
     \<and> ring_wf capacity4_ring \<and> buffers_ok capacity4_ring
     \<and> size_f capacity4_ring = 4 \<and> count capacity4_ring = 0
     \<and> overflow_count capacity4_ring = 0
     \<and> valid_payload [1, 2, 3] 3 \<and> valid_payload [1, 2, 3] 3 \<and> valid_payload [1, 2, 3] 3
     \<and> valid_payload [1, 2, 3] 3 \<and> valid_payload [1, 2, 3] 3"
    using capacity4_ring_ok
    by (simp add: capacity4_device_def capacity4_ring_def valid_payload_def MAX_FRAME_SIZE_def)
  have rx: "rx_ring capacity4_device = Ref capacity4_ring" by (simp add: capacity4_device_def)
  note t = overflow_count_increments [where dev = capacity4_device and ring = capacity4_ring
      and ?p1.0 = "[1, 2, 3]" and ?l1.0 = 3 and ?p2.0 = "[1, 2, 3]" and ?l2.0 = 3
      and ?p3.0 = "[1, 2, 3]" and ?l3.0 = 3 and ?p4.0 = "[1, 2, 3]" and ?l4.0 = 3
      and ?p5.0 = "[1, 2, 3]" and ?l5.0 = 3 and int_status = 0 and r = IRQ_NONE
      and ?ev3.0 = "[Readl INT_STATUS]" and ?dev3.0 = capacity4_device]
  from t [THEN conjunct2, THEN conjunct2, THEN conjunct2, THEN conjunct2, THEN conjunct2,
          THEN conjunct2, THEN conjunct2, THEN conjunct2, rule_format, OF h]
  have s4: "\<exists>e1 d1 e2 d2 e3 d3 e4 d4 d5 r5.
           transmit_packet capacity4_device [1, 2, 3] 3 = Return (Inr (), e1, d1)
         \<and> transmit_packet d1 [1, 2, 3] 3 = Return (Inr (), e2, d2)
         \<and> transmit_packet d2 [1, 2, 3] 3 = Return (Inr (), e3, d3)
         \<and> transmit_packet d3 [1, 2, 3] 3 = Return (Inr (), e4, d4)
         \<and> transmit_packet d4 [1, 2, 3] 3 = Return (Inl ENOBUFS, [], d5)
         \<and> tx_ring d5 = Ref r5 \<and> overflow_count r5 = 1" .
  note u = overflow_count_increments [where ?dev0.0 = capacity4_device
      and tx = capacity4_ring and rx = capacity4_ring and ops = ?ops and dev = ?D4
      and data = "[1, 2, 3]" and len = 3 and rc = "Inl ENOBUFS" and ev = "[]" and dev' = ?D5
      and steps = ?steps and ?s1.0 = "idle ?D4" and x = "Claim 0 [1, 2, 3] 3"
      and ?s2.0 = "idle ?D5"]
  have "tx_ring capacity4_device = Ref capacity4_ring \<and> ring_wf capacity4_ring
        \<and> rx_ring capacity4_device = Ref capacity4_ring \<and> ring_wf capacity4_ring
        \<and> run ?ops capacity4_device = Some (Return ?D4)
        \<and> transmit_packet ?D4 [1, 2, 3] 3 = Return (Inl ENOBUFS, [], ?D5)"
    using h rx four_transmits fifth_transmit by simp
  from u [THEN conjunct2, THEN conjunct1, rule_format, OF this]
  have s2: "\<exists>ring ring'. tx_ring ?D4 = Ref ring \<and> tx_ring ?D5 = Ref ring'
              \<and> overflow_count ring' = overflow_count ring + 1"
    by auto
  have sch: "schedule ?steps (idle capacity4_device) = Some (Return (idle ?D4))"
    using run_as_schedule [OF four_transmits] by simp
  have "tx_ring capacity4_device = Ref capacity4_ring \<and> ring_wf capacity4_ring
        \<and> rx_ring capacity4_device = Ref capacity4_ring \<and> ring_wf capacity4_ring
        \<and> schedule ?steps (idle capacity4_device) = Some (Return (idle ?D4))
        \<and> apply_step (Claim 0 [1, 2, 3] 3) (idle ?D4) = Some (Return (idle ?D5))"
    using h rx sch fifth_claim by simp
  from u [THEN conjunct2, THEN conjunct2, THEN conjunct2, THEN conjunct1, rule_format, OF this]
  have s3: "\<exists>tx1 tx2. tx_ring (device (idle ?D4)) = Ref tx1
              \<and> tx_ring (device (idle ?D5)) = Ref tx2
              \<and> overflow_count tx2 =
                  (if claim_fails_full (Claim 0 [1, 2, 3] 3) (idle ?D4)
                   then overflow_count tx1 + 1 else overflow_count tx1)" .
  have ff: "claim_fails_full (Claim 0 [1, 2, 3] 3) (idle ?D4)"
    by (simp add: claim_fails_full_def idle_def transmit_packet_claim_def capacity4_device_def
          capacity4_ring_def full_ring_def MAX_FRAME_SIZE_def)
  from s3 ff have s3': "\<exists>tx1 tx2. tx_ring (device (idle ?D4)) = Ref tx1
              \<and> tx_ring (device (idle ?D5)) = Ref tx2
              \<and> overflow_count tx2 = overflow_count tx1 + 1"
    by simp
  have irq: "device_interrupt capacity4_device 0
               = Some (Return (IRQ_NONE, [Readl INT_STATUS], capacity4_device))"
    by (simp add: device_interrupt_def)
  from h have h': "started capacity4_device" "tx_ring capacity4_device = Ref capacity4_ring"
      "ring_wf capacity4_ring" "buffers_ok capacity4_ring" "size_f capacity4_ring = 4"
      "count capacity4_ring = 0" "overflow_count capacity4_ring = 0" "valid_payload [1, 2, 3] 3"
    by simp_all
  from h' rx s4 four_transmits fifth_transmit full_ring_fields s2 sch fifth_claim ff s3' irq
  show ?thesis by (intro conjI) (simp_all only:)
qed

subsection \<open>Rollback of a failed construction\<close>

text \<open>
  Claim C7. When any allocation request of \<^verbatim>\<open>alloc_ring_buffer\<close> fails (the
  descriptor array, one of the two pointer arrays, or one of the data buffers),
  the call returns \<^verbatim>\<open>-ENOMEM\<close>, and by then every resource it had allocated has
  been freed again, each exactly once (\<open>outstanding\<close> replays the allocator
  calls and ends with nothing live). The trace is given for each place of the
  failure. When the first request that fails is the one for data buffer \<open>k\<close>,
  the call has allocated the descriptor array, the two pointer arrays and the
  buffers \<open>0, ..., k - 1\<close> in this order, and after the failure it frees the
  buffers \<open>k - 1, ..., 0\<close>, the array of addresses, the array of buffer
  pointers and the descriptor array: each buffer allocated before the failing
  request is allocated before the failure and freed after it. The ring returned
  is the ring as it was before the call, but for the address of the descriptor
  memory and for the pointers to the arrays that the call has allocated and
  freed, none of which may be used any more. In particular its flag
  \<^verbatim>\<open>initialized\<close> is as it was before the call, so a ring that was not usable
  is still not usable.
\<close>

theorem alloc_ring_buffer_rollback:
  assumes "al Desc_ring = None \<or> al Data_buffers = None \<or> al Data_addrs = None
           \<or> (\<exists>i<RING_SIZE. al (Data_buffer i) = None)"
  shows "\<exists>ev ring'. alloc_ring_buffer al ring = (Inl ENOMEM, ev, ring')
           \<and> outstanding ev [] = Some []
           \<and> (\<forall>r. Alloc r \<in> set ev \<longrightarrow> Free r \<in> set ev)
           \<and> initialized ring' = initialized ring
           \<and> desc ring' = []
           \<and> ring' =
               (case al Desc_ring of
                  None \<Rightarrow> ring\<lparr>desc := []\<rparr>
                | Some a \<Rightarrow>
                    (case al Data_buffers of
                       None \<Rightarrow> ring\<lparr>desc := [], dma_addr := a, data_buffers := []\<rparr>
                     | Some b \<Rightarrow>
                         ring\<lparr>desc := [], dma_addr := a, data_buffers := [],
                              data_addrs := []\<rparr>))
           \<and> (al Desc_ring = None \<longrightarrow> ev = [Alloc_failed Desc_ring])
           \<and> (al Desc_ring \<noteq> None \<and> al Data_buffers = None \<longrightarrow>
                ev = [Alloc Desc_ring, Desc_clear, Alloc_failed Data_buffers, Free Desc_ring]
                \<and> data_buffers ring' = [])
           \<and> (al Desc_ring \<noteq> None \<and> al Data_buffers \<noteq> None \<and> al Data_addrs = None \<longrightarrow>
                ev = [Alloc Desc_ring, Desc_clear, Alloc Data_buffers, Alloc_failed Data_addrs,
                      Free Data_buffers, Free Desc_ring]
                \<and> data_buffers ring' = [] \<and> data_addrs ring' = [])
           \<and> (\<forall>k. al Desc_ring \<noteq> None \<and> al Data_buffers \<noteq> None \<and> al Data_addrs \<noteq> None
                  \<and> k < RING_SIZE \<and> (\<forall>j<k. al (Data_buffer j) \<noteq> None)
                  \<and> al (Data_buffer k) = None \<longrightarrow>
                ev = [Alloc Desc_ring, Desc_clear, Alloc Data_buffers, Alloc Data_addrs]
                      @ concat (map (buffer_events al) [0..<k])
                      @ [Alloc_failed (Data_buffer k)]
                      @ map (\<lambda>j. Free (Data_buffer j)) (rev [0..<k])
                      @ [Free Data_addrs, Free Data_buffers, Free Desc_ring]
                \<and> data_buffers ring' = [] \<and> data_addrs ring' = []
                \<and> (\<forall>j<k. precedes (Alloc (Data_buffer j)) (Alloc_failed (Data_buffer k)) ev
                        \<and> precedes (Alloc_failed (Data_buffer k)) (Free (Data_buffer j)) ev))"
proof -
  obtain rc ev ring' where res: "alloc_ring_buffer al ring = (rc, ev, ring')"
    by (metis prod_cases3)
  have "rc \<noteq> Inr ()"
    using assms res alloc_ring_buffer_succeeds_iff [of al ring] by auto
  then obtain e where rc: "rc = Inl e" by (cases rc) auto
  from alloc_ring_buffer_failure [OF res [unfolded rc]]
  have f: "e = ENOMEM" "outstanding ev [] = Some []" "initialized ring' = initialized ring"
    by simp_all
  have fr: "\<forall>r. Alloc r \<in> set ev \<longrightarrow> Free r \<in> set ev"
    using outstanding_freed [OF f(2)] by simp
  have t1: "al Desc_ring = None \<longrightarrow> ev = [Alloc_failed Desc_ring] \<and> desc ring' = []"
    using res by (auto simp: alloc_ring_buffer_def)
  have t2: "al Desc_ring \<noteq> None \<and> al Data_buffers = None \<longrightarrow>
              ev = [Alloc Desc_ring, Desc_clear, Alloc_failed Data_buffers, Free Desc_ring]
              \<and> data_buffers ring' = [] \<and> desc ring' = []"
    using res by (auto simp: alloc_ring_buffer_def Let_def)
  have t3: "al Desc_ring \<noteq> None \<and> al Data_buffers \<noteq> None \<and> al Data_addrs = None \<longrightarrow>
              ev = [Alloc Desc_ring, Desc_clear, Alloc Data_buffers, Alloc_failed Data_addrs,
                    Free Data_buffers, Free Desc_ring]
              \<and> data_buffers ring' = [] \<and> data_addrs ring' = [] \<and> desc ring' = []"
    using res by (auto simp: alloc_ring_buffer_def Let_def)
  have t4: "ev = [Alloc Desc_ring, Desc_clear, Alloc Data_buffers, Alloc Data_addrs]
                      @ concat (map (buffer_events al) [0..<k])
                      @ [Alloc_failed (Data_buffer k)]
                      @ map (\<lambda>j. Free (Data_buffer j)) (rev [0..<k])
                      @ [Free Data_addrs, Free Data_buffers, Free Desc_ring]
            \<and> data_buffers ring' = [] \<and> data_addrs ring' = []
            \<and> desc ring' = []
            \<and> (\<forall>j<k. precedes (Alloc (Data_buffer j)) (Alloc_failed (Data_buffer k)) ev
                    \<and> precedes (Alloc_failed (Data_buffer k)) (Free (Data_buffer j)) ev)"
    if h: "al Desc_ring \<noteq> None" "al Data_buffers \<noteq> None" "al Data_addrs \<noteq> None"
      "k < RING_SIZE" "\<forall>j<k. al (Data_buffer j) \<noteq> None" "al (Data_buffer k) = None" for k
  proof -
    from h(1-3) obtain a b c where al: "al Desc_ring = Some a" "al Data_buffers = Some b"
        "al Data_addrs = Some c" by auto
    let ?allocs = "[Alloc Desc_ring, Desc_clear, Alloc Data_buffers, Alloc Data_addrs]
                      @ concat (map (buffer_events al) [0..<k])"
    let ?frees = "map (\<lambda>j. Free (Data_buffer j)) (rev [0..<k])
                      @ [Free Data_addrs, Free Data_buffers, Free Desc_ring]"
    from alloc_ring_buffer_unwinds [OF al h(4-6), of ring] res
    have ev: "ev = ?allocs @ [Alloc_failed (Data_buffer k)] @ ?frees" and d: "desc ring' = []"
      "data_buffers ring' = []" "data_addrs ring' = []"
      by auto
    have "precedes (Alloc (Data_buffer j)) (Alloc_failed (Data_buffer k)) ev
          \<and> precedes (Alloc_failed (Data_buffer k)) (Free (Data_buffer j)) ev" if "j < k" for j
    proof -
      have a: "Alloc (Data_buffer j) \<in> set ?allocs"
        using that by (auto simp: buffer_events_def)
      have b: "Free (Data_buffer j) \<in> set ?frees" using that by auto
      have "precedes (Alloc (Data_buffer j)) (Alloc_failed (Data_buffer k))
              (?allocs @ ([Alloc_failed (Data_buffer k)] @ ?frees))"
        using a by (intro precedes_append) simp_all
      moreover have "precedes (Alloc_failed (Data_buffer k)) (Free (Data_buffer j))
              ((?allocs @ [Alloc_failed (Data_buffer k)]) @ ?frees)"
        using b by (intro precedes_append) simp_all
      ultimately show ?thesis by (simp only: ev append_assoc)
    qed
    with ev d show ?thesis by simp
  qed
  have d: "desc ring' = []"
  proof (cases "al Desc_ring = None \<or> al Data_buffers = None \<or> al Data_addrs = None")
    case True
    with t1 t2 t3 show ?thesis by auto
  next
    case False
    with assms obtain i where i: "i < RING_SIZE" "al (Data_buffer i) = None" by blast
    define k where "k = (LEAST i. al (Data_buffer i) = None)"
    have k: "al (Data_buffer k) = None" "k \<le> i" "\<forall>j<k. al (Data_buffer j) \<noteq> None"
      unfolding k_def using i(2) by (auto intro: LeastI Least_le dest: not_less_Least)
    from t4 [of k] False k i(1) show ?thesis by simp
  qed
  have c1: "al Desc_ring = None \<longrightarrow> ev = [Alloc_failed Desc_ring]"
    using t1 by simp
  have c2: "al Desc_ring \<noteq> None \<and> al Data_buffers = None \<longrightarrow>
              ev = [Alloc Desc_ring, Desc_clear, Alloc_failed Data_buffers, Free Desc_ring]
              \<and> data_buffers ring' = []"
    using t2 by simp
  have c3: "al Desc_ring \<noteq> None \<and> al Data_buffers \<noteq> None \<and> al Data_addrs = None \<longrightarrow>
              ev = [Alloc Desc_ring, Desc_clear, Alloc Data_buffers, Alloc_failed Data_addrs,
                    Free Data_buffers, Free Desc_ring]
              \<and> data_buffers ring' = [] \<and> data_addrs ring' = []"
    using t3 by simp
  have c4: "\<forall>k. al Desc_ring \<noteq> None \<and> al Data_buffers \<noteq> None \<and> al Data_addrs \<noteq> None
                  \<and> k < RING_SIZE \<and> (\<forall>j<k. al (Data_buffer j) \<noteq> None)
                  \<and> al (Data_buffer k) = None \<longrightarrow>
                ev = [Alloc Desc_ring, Desc_clear, Alloc Data_buffers, Alloc Data_addrs]
                      @ concat (map (buffer_events al) [0..<k])
                      @ [Alloc_failed (Data_buffer k)]
                      @ map (\<lambda>j. Free (Data_buffer j)) (rev [0..<k])
                      @ [Free Data_addrs, Free Data_buffers, Free Desc_ring]
                \<and> data_buffers ring' = [] \<and> data_addrs ring' = []
                \<and> (\<forall>j<k. precedes (Alloc (Data_buffer j)) (Alloc_failed (Data_buffer k)) ev
                        \<and> precedes (Alloc_failed (Data_buffer k)) (Free (Data_buffer j)) ev)"
  proof (intro allI impI)
    fix k
    assume "al Desc_ring \<noteq> None \<and> al Data_buffers \<noteq> None \<and> al Data_addrs \<noteq> None
                  \<and> k < RING_SIZE \<and> (\<forall>j<k. al (Data_buffer j) \<noteq> None)
                  \<and> al (Data_buffer k) = None"
    then have h: "al Desc_ring \<noteq> None" "al Data_buffers \<noteq> None" "al Data_addrs \<noteq> None"
      "k < RING_SIZE" "\<forall>j<k. al (Data_buffer j) \<noteq> None" "al (Data_buffer k) = None"
      by blast+
    from t4 [OF h]
    show "ev = [Alloc Desc_ring, Desc_clear, Alloc Data_buffers, Alloc Data_addrs]
                      @ concat (map (buffer_events al) [0..<k])
                      @ [Alloc_failed (Data_buffer k)]
                      @ map (\<lambda>j. Free (Data_buffer j)) (rev [0..<k])
                      @ [Free Data_addrs, Free Data_buffers, Free Desc_ring]
                \<and> data_buffers ring' = [] \<and> data_addrs ring' = []
                \<and> (\<forall>j<k. precedes (Alloc (Data_buffer j)) (Alloc_failed (Data_buffer k)) ev
                        \<and> precedes (Alloc_failed (Data_buffer k)) (Free (Data_buffer j)) ev)"
      by (elim conjE, intro conjI) assumption+
  qed
  have r: "alloc_ring_buffer al ring = (Inl ENOMEM, ev, ring')"
    using res rc f(1) by simp
  have g: "ring' =
               (case al Desc_ring of
                  None \<Rightarrow> ring\<lparr>desc := []\<rparr>
                | Some a \<Rightarrow>
                    (case al Data_buffers of
                       None \<Rightarrow> ring\<lparr>desc := [], dma_addr := a, data_buffers := []\<rparr>
                     | Some b \<Rightarrow>
                         ring\<lparr>desc := [], dma_addr := a, data_buffers := [],
                              data_addrs := []\<rparr>))"
    by (rule alloc_ring_buffer_failure_ring [OF r])
  show ?thesis
    by (intro exI [of _ ev] exI [of _ ring'] conjI)
       (rule r f(2) fr f(3) d g c1 c2 c3 c4)+
qed

theorem alloc_ring_buffer_rollback_witness:
  "(\<exists>i<RING_SIZE. short_of_memory (Data_buffer i) = None)
   \<and> alloc_ring_buffer short_of_memory kzalloc_ring =
       (Inl ENOMEM,
        [Alloc Desc_ring, Desc_clear, Alloc Data_buffers, Alloc Data_addrs,
         Alloc (Data_buffer 0),
         Desc_store 0 Buffer_addr 0x1000, Desc_store 0 Length 1518,
         Desc_store 0 Status 0, Desc_store 0 Control 0x80000000,
         Alloc (Data_buffer 1),
         Desc_store 1 Buffer_addr 0x1000, Desc_store 1 Length 1518,
         Desc_store 1 Status 0, Desc_store 1 Control 0x80000000,
         Alloc_failed (Data_buffer 2),
         Free (Data_buffer 1), Free (Data_buffer 0),
         Free Data_addrs, Free Data_buffers, Free Desc_ring],
        snd (snd (alloc_ring_buffer short_of_memory kzalloc_ring)))
   \<and> outstanding (fst (snd (alloc_ring_buffer short_of_memory kzalloc_ring))) [] = Some []
   \<and> \<not> initialized (snd (snd (alloc_ring_buffer short_of_memory kzalloc_ring)))
   \<and> desc (snd (snd (alloc_ring_buffer short_of_memory kzalloc_ring))) = []
   \<and> snd (snd (alloc_ring_buffer short_of_memory kzalloc_ring))
       = kzalloc_ring\<lparr>dma_addr := 0x1000\<rparr>
   \<and> precedes (Alloc (Data_buffer 0)) (Alloc_failed (Data_buffer 2))
         (fst (snd (alloc_ring_buffer short_of_memory kzalloc_ring)))
   \<and> precedes (Alloc_failed (Data_buffer 2)) (Free (Data_buffer 0))
         (fst (snd (alloc_ring_buffer short_of_memory kzalloc_ring)))"
proof -
  let ?al = short_of_memory
  have lt: "2 < RING_SIZE" by (simp add: RING_SIZE_def)
  then have h: "\<exists>i<RING_SIZE. ?al (Data_buffer i) = None"
    by (auto simp: short_of_memory_def)
  then have "?al Desc_ring = None \<or> ?al Data_buffers = None \<or> ?al Data_addrs = None
           \<or> (\<exists>i<RING_SIZE. ?al (Data_buffer i) = None)" by blast
  from alloc_ring_buffer_rollback [OF this, of kzalloc_ring]
  obtain ev ring' where r: "alloc_ring_buffer ?al kzalloc_ring = (Inl ENOMEM, ev, ring')"
      "outstanding ev [] = Some []" "initialized ring' = initialized kzalloc_ring"
      "desc ring' = []"
    and g: "ring' =
               (case short_of_memory Desc_ring of
                  None \<Rightarrow> kzalloc_ring\<lparr>desc := []\<rparr>
                | Some a \<Rightarrow>
                    (case short_of_memory Data_buffers of
                       None \<Rightarrow> kzalloc_ring\<lparr>desc := [], dma_addr := a, data_buffers := []\<rparr>
                     | Some b \<Rightarrow>
                         kzalloc_ring\<lparr>desc := [], dma_addr := a, data_buffers := [],
                                      data_addrs := []\<rparr>))"
    and t: "\<forall>k. ?al Desc_ring \<noteq> None \<and> ?al Data_buffers \<noteq> None \<and> ?al Data_addrs \<noteq> None
                  \<and> k < RING_SIZE \<and> (\<forall>j<k. ?al (Data_buffer j) \<noteq> None)
                  \<and> ?al (Data_buffer k) = None \<longrightarrow>
                ev = [Alloc Desc_ring, Desc_clear, Alloc Data_buffers, Alloc Data_addrs]
                      @ concat (map (buffer_events ?al) [0..<k])
                      @ [Alloc_failed (Data_buffer k)]
                      @ map (\<lambda>j. Free (Data_buffer j)) (rev [0..<k])
                      @ [Free Data_addrs, Free Data_buffers, Free Desc_ring]
                \<and> data_buffers ring' = [] \<and> data_addrs ring' = []
                \<and> (\<forall>j<k. precedes (Alloc (Data_buffer j)) (Alloc_failed (Data_buffer k)) ev
                        \<and> precedes (Alloc_failed (Data_buffer k)) (Free (Data_buffer j)) ev)"
    by blast
  have pre: "?al Desc_ring \<noteq> None \<and> ?al Data_buffers \<noteq> None \<and> ?al Data_addrs \<noteq> None
                  \<and> 2 < RING_SIZE \<and> (\<forall>j<2. ?al (Data_buffer j) \<noteq> None)
                  \<and> ?al (Data_buffer 2) = None"
    using lt by (simp add: short_of_memory_def)
  note t2 = t [rule_format, OF pre]
  from t2 have
    ev: "ev = [Alloc Desc_ring, Desc_clear, Alloc Data_buffers, Alloc Data_addrs]
                      @ concat (map (buffer_events ?al) [0..<2])
                      @ [Alloc_failed (Data_buffer 2)]
                      @ map (\<lambda>j. Free (Data_buffer j)) (rev [0..<2])
                      @ [Free Data_addrs, Free Data_buffers, Free Desc_ring]"
    by (rule conjunct1)
  from t2 have "data_buffers ring' = [] \<and> data_addrs ring' = []
      \<and> (\<forall>j<2. precedes (Alloc (Data_buffer j)) (Alloc_failed (Data_buffer 2)) ev
                        \<and> precedes (Alloc_failed (Data_buffer 2)) (Free (Data_buffer j)) ev)"
    by (rule conjunct2)
  then have q: "\<forall>j<2. precedes (Alloc (Data_buffer j)) (Alloc_failed (Data_buffer 2)) ev
                        \<and> precedes (Alloc_failed (Data_buffer 2)) (Free (Data_buffer j)) ev"
    by simp
  have p: "precedes (Alloc (Data_buffer 0)) (Alloc_failed (Data_buffer 2)) ev"
      "precedes (Alloc_failed (Data_buffer 2)) (Free (Data_buffer 0)) ev"
    using q [rule_format, of 0] by simp_all
  have two: "[0..<2] = [0, 1]" by (simp add: numeral_2_eq_2)
  have ev': "ev = [Alloc Desc_ring, Desc_clear, Alloc Data_buffers, Alloc Data_addrs,
         Alloc (Data_buffer 0),
         Desc_store 0 Buffer_addr 0x1000, Desc_store 0 Length 1518,
         Desc_store 0 Status 0, Desc_store 0 Control 0x80000000,
         Alloc (Data_buffer 1),
         Desc_store 1 Buffer_addr 0x1000, Desc_store 1 Length 1518,
         Desc_store 1 Status 0, Desc_store 1 Control 0x80000000,
         Alloc_failed (Data_buffer 2),
         Free (Data_buffer 1), Free (Data_buffer 0),
         Free Data_addrs, Free Data_buffers, Free Desc_ring]"
    unfolding ev two
    by (simp add: buffer_events_def short_of_memory_def MAX_FRAME_SIZE_def
          DESC_FLAG_OWNER_HW_def)
  have g': "ring' = kzalloc_ring\<lparr>dma_addr := 0x1000\<rparr>"
    using g by (simp add: short_of_memory_def kzalloc_ring_def)
  have "\<not> initialized kzalloc_ring" by (simp add: kzalloc_ring_def)
  with r p ev' g' have
    "alloc_ring_buffer ?al kzalloc_ring =
       (Inl ENOMEM,
        [Alloc Desc_ring, Desc_clear, Alloc Data_buffers, Alloc Data_addrs,
         Alloc (Data_buffer 0),
         Desc_store 0 Buffer_addr 0x1000, Desc_store 0 Length 1518,
         Desc_store 0 Status 0, Desc_store 0 Control 0x80000000,
         Alloc (Data_buffer 1),
         Desc_store 1 Buffer_addr 0x1000, Desc_store 1 Length 1518,
         Desc_store 1 Status 0, Desc_store 1 Control 0x80000000,
         Alloc_failed (Data_buffer 2),
         Free (Data_buffer 1), Free (Data_buffer 0),
         Free Data_addrs, Free Data_buffers, Free Desc_ring],
        snd (snd (alloc_ring_buffer ?al kzalloc_ring)))"
    "outstanding (fst (snd (alloc_ring_buffer ?al kzalloc_ring))) [] = Some []"
    "\<not> initialized (snd (snd (alloc_ring_buffer ?al kzalloc_ring)))"
    "desc (snd (snd (alloc_ring_buffer ?al kzalloc_ring))) = []"
    "snd (snd (alloc_ring_buffer ?al kzalloc_ring)) = kzalloc_ring\<lparr>dma_addr := 0x1000\<rparr>"
    "precedes (Alloc (Data_buffer 0)) (Alloc_failed (Data_buffer 2))
         (fst (snd (alloc_ring_buffer ?al kzalloc_ring)))"
    "precedes (Alloc_failed (Data_buffer 2)) (Free (Data_buffer 0))
         (fst (snd (alloc_ring_buffer ?al kzalloc_ring)))"
    by simp_all
  with h show ?thesis by (intro conjI)
qed

subsection \<open>The order of teardown\<close>

text \<open>
  Claim C8. The trace of \<^verbatim>\<open>cleanup_dma_device\<close> is the disabling prefix
  followed by the releases. The prefix is: the write of 0 to \<^verbatim>\<open>MAC_CONTROL\<close>
  (when the device is started), the write of 0 to \<^verbatim>\<open>INT_ENABLE\<close>, and
  \<^verbatim>\<open>free_irq\<close> (when an interrupt line is registered), in this order and with no
  release among them. Everything after the prefix is a release of ring memory
  (a data buffer, a pointer array, the descriptor memory, a ring struct). So no
  free precedes a disabling write.
\<close>

theorem cleanup_disables_before_release:
  assumes "cleanup_dma_device (Ref dev) = Return (ev, p')"
  shows "\<exists>releases. ev = disable_events dev @ releases
           \<and> (\<forall>e\<in>set releases. is_release e)
           \<and> (\<forall>e\<in>set (disable_events dev). \<not> is_release e)
           \<and> Writel 0 INT_ENABLE \<in> set (disable_events dev)
           \<and> (started dev \<longrightarrow> Writel 0 MAC_CONTROL \<in> set (disable_events dev))
           \<and> (irq dev \<noteq> 0 \<longrightarrow> Free_irq \<in> set (disable_events dev))"
proof -
  let ?dev2 = "(if started dev then dev\<lparr>started := False\<rparr> else dev)\<lparr>int_enabled := False\<rparr>"
  from assms obtain ev_tx tx' ev_rx rx' where
    t: "cleanup_ring TX (tx_ring dev) = Return (ev_tx, tx')"
    and x: "cleanup_ring RX (rx_ring dev) = Return (ev_rx, rx')"
    and e: "ev = disable_events dev @ ev_tx @ ev_rx"
    by (cases "started dev")
       (auto simp: cleanup_dma_device_def disable_events_def Let_def split: exec.splits)
  from cleanup_ring_events [OF t] cleanup_ring_events [OF x]
  have "\<forall>e\<in>set (ev_tx @ ev_rx). is_release e" by auto
  moreover have "\<forall>e\<in>set (disable_events dev). \<not> is_release e"
    by (auto simp: disable_events_def)
  ultimately show ?thesis
    using e by (intro exI [of _ "ev_tx @ ev_rx"]) (simp add: disable_events_def)
qed

theorem cleanup_disables_before_release_witness:
  "cleanup_dma_device (Ref capacity4_device) =
     Return ([Writel 0 MAC_CONTROL, Writel 0 INT_ENABLE, Free_irq,
              Free (Data_buffer 0), Free (Data_buffer 1), Free (Data_buffer 2),
              Free (Data_buffer 3), Free Data_addrs, Free Data_buffers, Free Desc_ring,
              Kfree_ring TX,
              Free (Data_buffer 0), Free (Data_buffer 1), Free (Data_buffer 2),
              Free (Data_buffer 3), Free Data_addrs, Free Data_buffers, Free Desc_ring,
              Kfree_ring RX],
             Ref (capacity4_device\<lparr>started := False, int_enabled := False,
                                    tx_ring := Freed, rx_ring := Freed\<rparr>))
   \<and> disable_events capacity4_device = [Writel 0 MAC_CONTROL, Writel 0 INT_ENABLE, Free_irq]
   \<and> (\<exists>releases.
         [Writel 0 MAC_CONTROL, Writel 0 INT_ENABLE, Free_irq,
          Free (Data_buffer 0), Free (Data_buffer 1), Free (Data_buffer 2),
          Free (Data_buffer 3), Free Data_addrs, Free Data_buffers, Free Desc_ring,
          Kfree_ring TX,
          Free (Data_buffer 0), Free (Data_buffer 1), Free (Data_buffer 2),
          Free (Data_buffer 3), Free Data_addrs, Free Data_buffers, Free Desc_ring,
          Kfree_ring RX] = disable_events capacity4_device @ releases
         \<and> list_all is_release releases)"
proof -
  have d: "disable_events capacity4_device = [Writel 0 MAC_CONTROL, Writel 0 INT_ENABLE, Free_irq]"
    by (simp add: disable_events_def capacity4_device_def)
  from cleanup_disables_before_release [OF cleanup_capacity4]
  have "\<exists>releases.
         [Writel 0 MAC_CONTROL, Writel 0 INT_ENABLE, Free_irq,
          Free (Data_buffer 0), Free (Data_buffer 1), Free (Data_buffer 2),
          Free (Data_buffer 3), Free Data_addrs, Free Data_buffers, Free Desc_ring,
          Kfree_ring TX,
          Free (Data_buffer 0), Free (Data_buffer 1), Free (Data_buffer 2),
          Free (Data_buffer 3), Free Data_addrs, Free Data_buffers, Free Desc_ring,
          Kfree_ring RX] = disable_events capacity4_device @ releases
         \<and> list_all is_release releases"
    unfolding list_all_iff by blast
  with cleanup_capacity4 d show ?thesis by (intro conjI) (simp_all only:)
qed

subsection \<open>The underrun counter\<close>

text \<open>
  Claim C9, as the code has it. \<^verbatim>\<open>alloc_ring_buffer\<close> sets \<^verbatim>\<open>underrun_count\<close>
  to zero, and nothing else writes it: along every sequence of transmits,
  interrupts and completions by the device, the counter of either ring keeps
  the value it had. In particular an interrupt whose reclaim pass finds
  nothing does not increment it.
\<close>

theorem underrun_count_never_written:
  "(alloc_ring_buffer al ring0 = (Inr (), ev, ring) \<longrightarrow> underrun_count ring = 0)
   \<and> (run ops dev = Some (Return dev') \<longrightarrow>
        (\<forall>tx. tx_ring dev = Ref tx \<longrightarrow>
           (\<exists>tx'. tx_ring dev' = Ref tx' \<and> underrun_count tx' = underrun_count tx))
        \<and> (\<forall>rx. rx_ring dev = Ref rx \<longrightarrow>
           (\<exists>rx'. rx_ring dev' = Ref rx' \<and> underrun_count rx' = underrun_count rx)))"
proof (intro conjI impI allI)
  assume "alloc_ring_buffer al ring0 = (Inr (), ev, ring)"
  then show "underrun_count ring = 0" by (simp add: alloc_ring_buffer_counters)
next
  fix tx
  assume "run ops dev = Some (Return dev')" and "tx_ring dev = Ref tx"
  with run_underrun [of ops dev dev']
  show "\<exists>tx'. tx_ring dev' = Ref tx' \<and> underrun_count tx' = underrun_count tx"
    by (cases "tx_ring dev'") auto
next
  fix rx
  assume "run ops dev = Some (Return dev')" and "rx_ring dev = Ref rx"
  with run_underrun [of ops dev dev']
  show "\<exists>rx'. rx_ring dev' = Ref rx' \<and> underrun_count rx' = underrun_count rx"
    by (cases "rx_ring dev'") auto
qed

theorem underrun_count_counterexample:
  "reclaim_ready fresh_ring = [] \<and> tx_ring fresh_device = Ref fresh_ring
   \<and> underrun_count fresh_ring = 0
   \<and> device_interrupt fresh_device INT_STATUS_TX =
        Some (Return (IRQ_HANDLED, [Readl INT_STATUS, Writel INT_STATUS_TX INT_STATUS],
                      fresh_device\<lparr>interrupts := 1\<rparr>))
   \<and> tx_ring (fresh_device\<lparr>interrupts := 1\<rparr>) = Ref fresh_ring"
  using interrupt_idle_fresh
  by (simp add: fresh_device_def reclaim_ready_def pending_slots_def fresh_ring_eq)

theorem underrun_count_never_written_witness:
  "run [Interrupt INT_STATUS_TX] fresh_device = Some (Return (fresh_device\<lparr>interrupts := 1\<rparr>))
   \<and> tx_ring fresh_device = Ref fresh_ring
   \<and> (\<exists>tx'. tx_ring (fresh_device\<lparr>interrupts := 1\<rparr>) = Ref tx'
             \<and> underrun_count tx' = underrun_count fresh_ring)
   \<and> alloc_ring_buffer plentiful kzalloc_ring
        = (Inr (), fst (snd (alloc_ring_buffer plentiful kzalloc_ring)), fresh_ring)
   \<and> underrun_count fresh_ring = 0"
proof -
  have r: "run [Interrupt INT_STATUS_TX] fresh_device
             = Some (Return (fresh_device\<lparr>interrupts := 1\<rparr>))"
    by (simp add: interrupt_idle_fresh)
  have t: "tx_ring fresh_device = Ref fresh_ring" by (simp add: fresh_device_def)
  note a = fresh_ring_alloc
  note u = underrun_count_never_written [where ops = "[Interrupt INT_STATUS_TX]"
      and dev = fresh_device and dev' = "fresh_device\<lparr>interrupts := 1\<rparr>"
      and al = plentiful and ?ring0.0 = kzalloc_ring
      and ev = "fst (snd (alloc_ring_buffer plentiful kzalloc_ring))" and ring = fresh_ring]
  from u [THEN conjunct1, rule_format, OF a]
  have z: "underrun_count fresh_ring = 0" .
  from u [THEN conjunct2, rule_format, OF r, THEN conjunct1, rule_format, OF t]
  have "\<exists>tx'. tx_ring (fresh_device\<lparr>interrupts := 1\<rparr>) = Ref tx'
             \<and> underrun_count tx' = underrun_count fresh_ring" .
  with r t a z show ?thesis by (intro conjI) (simp_all only:)
qed

subsection \<open>Error returns of \<^verbatim>\<open>transmit_packet\<close>\<close>

text \<open>
  Claim C10. \<^verbatim>\<open>transmit_packet\<close> returns an error in two ways. It returns
  \<^verbatim>\<open>-EINVAL\<close> when the device is not started or the length exceeds
  \<^verbatim>\<open>MAX_FRAME_SIZE\<close>, and then the device, with both rings, is exactly as before
  and nothing was done to the environment. It returns \<^verbatim>\<open>-ENOBUFS\<close> when the
  ring is full, and then the device is as before except for the transmit ring's
  \<^verbatim>\<open>overflow_count\<close>, which is one higher: head, tail, count, the descriptor
  array and the data buffers are unchanged. No other error is returned.
\<close>

theorem transmit_packet_error_frame:
  "(\<not> started dev \<or> of_nat MAX_FRAME_SIZE < len \<longrightarrow>
      transmit_packet dev data len = Return (Inl EINVAL, [], dev))
   \<and> (started dev \<and> len \<le> of_nat MAX_FRAME_SIZE \<and> tx_ring dev = Ref ring
        \<and> size_f ring \<le> ucast (count ring) \<longrightarrow>
      transmit_packet dev data len =
        Return (Inl ENOBUFS, [],
                dev\<lparr>tx_ring := Ref (ring\<lparr>overflow_count := overflow_count ring + 1\<rparr>)\<rparr>))
   \<and> (transmit_packet dev data len = Return (Inl e, ev, dev') \<longrightarrow>
        ev = [] \<and>
        (e = EINVAL \<and> (\<not> started dev \<or> of_nat MAX_FRAME_SIZE < len) \<and> dev' = dev
         \<or> e = ENOBUFS \<and> started dev \<and> len \<le> of_nat MAX_FRAME_SIZE \<and>
            (\<exists>r. tx_ring dev = Ref r \<and> size_f r \<le> ucast (count r) \<and>
               dev' = dev\<lparr>tx_ring := Ref (r\<lparr>overflow_count := overflow_count r + 1\<rparr>)\<rparr>)))"
proof (intro conjI impI)
  assume "\<not> started dev \<or> of_nat MAX_FRAME_SIZE < len"
  then show "transmit_packet dev data len = Return (Inl EINVAL, [], dev)"
    by (auto simp: transmit_packet_def)
next
  assume "started dev \<and> len \<le> of_nat MAX_FRAME_SIZE \<and> tx_ring dev = Ref ring
            \<and> size_f ring \<le> ucast (count ring)"
  then show "transmit_packet dev data len =
        Return (Inl ENOBUFS, [],
                dev\<lparr>tx_ring := Ref (ring\<lparr>overflow_count := overflow_count ring + 1\<rparr>)\<rparr>)"
    by (auto simp: transmit_packet_def)
next
  assume "transmit_packet dev data len = Return (Inl e, ev, dev')"
  then show "ev = []"
    by (auto simp: transmit_packet_def Let_def
             split: if_splits ptr.splits option.splits exec.splits)
next
  assume "transmit_packet dev data len = Return (Inl e, ev, dev')"
  then show "e = EINVAL \<and> (\<not> started dev \<or> of_nat MAX_FRAME_SIZE < len) \<and> dev' = dev
         \<or> e = ENOBUFS \<and> started dev \<and> len \<le> of_nat MAX_FRAME_SIZE \<and>
            (\<exists>r. tx_ring dev = Ref r \<and> size_f r \<le> ucast (count r) \<and>
               dev' = dev\<lparr>tx_ring := Ref (r\<lparr>overflow_count := overflow_count r + 1\<rparr>)\<rparr>)"
    by (auto simp: transmit_packet_def Let_def
             split: if_splits ptr.splits option.splits exec.splits)
qed

theorem transmit_packet_error_frame_witness:
  "(\<not> started (capacity4_device\<lparr>started := False\<rparr>) \<and>
    transmit_packet (capacity4_device\<lparr>started := False\<rparr>) [] 0 =
      Return (Inl EINVAL, [], capacity4_device\<lparr>started := False\<rparr>))
   \<and> (started capacity4_device \<and> (2 :: size_t) \<le> of_nat MAX_FRAME_SIZE \<and>
       size_f (capacity4_ring\<lparr>count := 4\<rparr>) \<le> ucast (count (capacity4_ring\<lparr>count := 4\<rparr>)) \<and>
    transmit_packet (capacity4_device\<lparr>tx_ring := Ref (capacity4_ring\<lparr>count := 4\<rparr>)\<rparr>) [1, 2] 2 =
      Return (Inl ENOBUFS, [],
        capacity4_device\<lparr>tx_ring := Ref (capacity4_ring\<lparr>count := 4,
          overflow_count := overflow_count (capacity4_ring\<lparr>count := 4\<rparr>) + 1\<rparr>)\<rparr>))
   \<and> (\<exists>r. tx_ring (capacity4_device\<lparr>tx_ring := Ref (capacity4_ring\<lparr>count := 4\<rparr>)\<rparr>) = Ref r
          \<and> size_f r \<le> ucast (count r)
          \<and> capacity4_device\<lparr>tx_ring := Ref (capacity4_ring\<lparr>count := 4,
                overflow_count := overflow_count (capacity4_ring\<lparr>count := 4\<rparr>) + 1\<rparr>)\<rparr>
              = capacity4_device\<lparr>tx_ring := Ref (capacity4_ring\<lparr>count := 4\<rparr>)\<rparr>
                  \<lparr>tx_ring := Ref (r\<lparr>overflow_count := overflow_count r + 1\<rparr>)\<rparr>)"
proof -
  let ?D1 = "capacity4_device\<lparr>started := False\<rparr>"
  let ?R2 = "capacity4_ring\<lparr>count := 4\<rparr>"
  let ?D2 = "capacity4_device\<lparr>tx_ring := Ref ?R2\<rparr>"
  let ?D2' = "capacity4_device\<lparr>tx_ring := Ref (capacity4_ring\<lparr>count := 4,
                overflow_count := overflow_count ?R2 + 1\<rparr>)\<rparr>"
  have a: "\<not> started ?D1 \<or> of_nat MAX_FRAME_SIZE < (0 :: size_t)"
    by simp
  have s: "started capacity4_device" by (simp add: capacity4_device_def)
  have l: "(2 :: size_t) \<le> of_nat MAX_FRAME_SIZE" by (simp add: MAX_FRAME_SIZE_def)
  have f: "size_f ?R2 \<le> ucast (count ?R2)" by (simp add: capacity4_ring_def)
  have b: "started ?D2 \<and> (2 :: size_t) \<le> of_nat MAX_FRAME_SIZE \<and> tx_ring ?D2 = Ref ?R2
            \<and> size_f ?R2 \<le> ucast (count ?R2)"
    using s l f by simp
  have t1: "transmit_packet ?D1 [] 0 = Return (Inl EINVAL, [], ?D1)"
    using transmit_packet_error_frame [where dev = ?D1 and len = 0 and data = "[]"] a
    by blast
  have "transmit_packet ?D2 [1, 2] 2 = Return (Inl ENOBUFS, [],
              ?D2\<lparr>tx_ring := Ref (?R2\<lparr>overflow_count := overflow_count ?R2 + 1\<rparr>)\<rparr>)"
    using transmit_packet_error_frame [where dev = ?D2 and len = 2 and data = "[1, 2]"
            and ring = ?R2] b
    by blast
  then have t2: "transmit_packet ?D2 [1, 2] 2 = Return (Inl ENOBUFS, [], ?D2')" by simp
  from transmit_packet_error_frame [where dev = ?D2 and len = 2 and data = "[1, 2]"
            and e = ENOBUFS and ev = "[]" and dev' = ?D2',
            THEN conjunct2, THEN conjunct2, rule_format, OF t2]
  have t3: "\<exists>r. tx_ring ?D2 = Ref r \<and> size_f r \<le> ucast (count r)
              \<and> ?D2' = ?D2\<lparr>tx_ring := Ref (r\<lparr>overflow_count := overflow_count r + 1\<rparr>)\<rparr>"
    by blast
  have n: "\<not> started ?D1" by simp
  from n t1 s l f t2 t3 show ?thesis by blast
qed

end
